theory Spec2Isabelle
  imports Main
begin

section \<open>The tables of schema.sql\<close>

text \<open>
  The three trip tables are lists of rows in scan order: the order in which a statement
  without ORDER BY visits and returns them. A row is scanned after the rows written
  before it: an inserted row, and the new version that an UPDATE writes of a row, come
  behind every row the table holds. Identifiers and positions are the INTEGER columns of
  the schema; they are integers here, and the statements that write a position check the
  32-bit range of the column type. Coordinates and route measures are payload that the
  handlers only pass on; they are integers here. The timestamp columns (\<open>created_at\<close>,
  \<open>fetched_at\<close>) and the constant \<open>profile\<close> column are left out. Of \<open>trips\<close> and
  \<open>timeline_entries\<close> only the columns the stop handlers read are kept: the trip ids, and
  each timeline entry's id with its nullable \<open>location\<close>.
\<close>

record trip_stop =
  stop_id :: int
  trip_id :: int
  position :: int
  timeline_entry_id :: "int option"
  waypoint_location :: "(int \<times> int) option"
  waypoint_name :: "string option"

record trip_route_segment =
  seg_id :: int
  seg_trip_id :: int
  from_stop_id :: int
  to_stop_id :: int
  route_geometry :: "(int \<times> int) list"
  distance_meters :: int
  duration_seconds :: int

record database =
  trips :: "int list"
  timeline_entries :: "(int \<times> (int \<times> int) option) list"
  trip_stops :: "trip_stop list"
  trip_route_segments :: "trip_route_segment list"
  trip_stops_id_seq :: int
  trip_route_segments_id_seq :: int

text \<open>
  The handlers of server.ts answer 400, answer 404, or let an exception escape: one thrown
  by \<open>fetchRouteSegment\<close> (carrying its message) or one raised by the database when a
  statement violates a constraint. No handler opens a transaction, so every handler
  returns the database as the statements executed so far have left it.
\<close>

datatype error = ValidationError | NotFoundError | RouteUnavailable string | DatabaseError

section \<open>Constraints and statements on \<open>trip_stops\<close>\<close>

text \<open>
  \<open>position INTEGER NOT NULL\<close>: a statement that would store a position outside the
  32-bit range raises. \<open>waypoint_name VARCHAR(255)\<close>: a statement that would store a
  longer name raises, unless the characters in excess are all spaces, which are cut off;
  \<open>varchar n v\<close> is the value stored for \<open>v\<close>, or \<open>None\<close> when the statement raises.
\<close>

definition int4 :: "int \<Rightarrow> bool" where
  "int4 n = (- 2147483648 \<le> n \<and> n \<le> 2147483647)"

definition varchar :: "nat \<Rightarrow> string option \<Rightarrow> string option option" where
  "varchar n v =
     (case v of
        None \<Rightarrow> Some None
      | Some s \<Rightarrow> if list_all (\<lambda>c. c = CHR '' '') (drop n s) then Some (Some (take n s)) else None)"

text \<open>
  \<open>CONSTRAINT unique_position_per_trip UNIQUE (trip_id, position)\<close>. The constraint is not
  deferrable: it is checked each time a statement writes a row, against the rows the
  table holds at that moment. A statement that raises has no effect.
\<close>

definition stop_key :: "trip_stop \<Rightarrow> int \<times> int" where
  "stop_key s = (trip_id s, position s)"

definition unique_position_per_trip :: "trip_stop list \<Rightarrow> bool" where
  "unique_position_per_trip rows = distinct (map stop_key rows)"

definition stops_of :: "int \<Rightarrow> database \<Rightarrow> trip_stop list" where
  "stops_of tripId db = filter (\<lambda>s. trip_id s = tripId) (trip_stops db)"

text \<open>\<open>SELECT COALESCE(MAX(position), -1) FROM trip_stops WHERE trip_id = tripId\<close>\<close>

definition max_position :: "int \<Rightarrow> database \<Rightarrow> int" where
  "max_position tripId db =
     (case map position (stops_of tripId db) of
        [] \<Rightarrow> - 1
      | p # ps \<Rightarrow> fold max ps p)"

text \<open>
  An UPDATE whose WHERE clause may match several rows. The matching rows \<open>pending\<close> are
  visited in scan order. Each is replaced by a new row version, which later scans return
  after the rows the statement did not touch (\<open>kept\<close>) and after the versions written
  before it (\<open>written\<close>). The new version must fit the column type, and its key must
  differ from the key of every other row the table holds at that moment: the rows not
  matched, the matching rows not yet visited, which still have their old positions, and
  the versions already written. Otherwise the statement raises and none of its writes
  remain.
\<close>

fun write_rows ::
  "(trip_stop \<Rightarrow> trip_stop) \<Rightarrow> trip_stop list \<Rightarrow> trip_stop list \<Rightarrow> trip_stop list
     \<Rightarrow> trip_stop list option" where
  "write_rows f [] kept written = Some (kept @ written)"
| "write_rows f (r # pending) kept written =
     (if int4 (position (f r))
         \<and> stop_key (f r) \<notin> set (map stop_key (pending @ kept @ written))
      then write_rows f pending kept (written @ [f r])
      else None)"

definition update_where ::
  "(trip_stop \<Rightarrow> bool) \<Rightarrow> (trip_stop \<Rightarrow> trip_stop) \<Rightarrow> trip_stop list \<Rightarrow> trip_stop list option" where
  "update_where P f rows = write_rows f (filter P rows) (filter (\<lambda>r. \<not> P r) rows) []"

text \<open>\<open>SET position = position + d\<close>\<close>

definition moved :: "int \<Rightarrow> trip_stop \<Rightarrow> trip_stop" where
  "moved d s = s\<lparr>position := position s + d\<rparr>"

text \<open>\<open>UPDATE trip_stops SET position = position + 1 WHERE trip_id = tripId AND position >= p\<close>\<close>

definition shift_positions :: "int \<Rightarrow> int \<Rightarrow> database \<Rightarrow> database option" where
  "shift_positions tripId p db =
     (case update_where (\<lambda>s. trip_id s = tripId \<and> position s \<ge> p) (moved 1) (trip_stops db) of
        None \<Rightarrow> None
      | Some rows \<Rightarrow> Some (db\<lparr>trip_stops := rows\<rparr>))"

text \<open>
  \<open>INSERT INTO trip_stops (...) VALUES (...) RETURNING *\<close>. The id is the next value of
  the SERIAL sequence, which raises once it has passed the 32-bit range and otherwise
  advances whether or not the row is accepted. The row is rejected when the position or
  the name does not fit its column, when \<open>trip_id\<close> or \<open>timeline_entry_id\<close> references no
  row, or when the position is taken; an accepted row is scanned after every row the
  table held. \<open>stop_has_source\<close> holds of both rows the handler builds.
\<close>

definition stop_has_source :: "trip_stop \<Rightarrow> bool" where
  "stop_has_source s =
     ((timeline_entry_id s \<noteq> None \<and> waypoint_location s = None)
      \<or> (timeline_entry_id s = None \<and> waypoint_location s \<noteq> None))"

definition references_ok :: "trip_stop \<Rightarrow> database \<Rightarrow> bool" where
  "references_ok s db =
     (trip_id s \<in> set (trips db)
      \<and> (case timeline_entry_id s of
            None \<Rightarrow> True
          | Some e \<Rightarrow> e \<in> set (map fst (timeline_entries db))))"

definition insert_trip_stop ::
  "int \<Rightarrow> int \<Rightarrow> int option \<Rightarrow> (int \<times> int) option \<Rightarrow> string option \<Rightarrow> database
     \<Rightarrow> trip_stop option \<times> database" where
  "insert_trip_stop tripId p entry loc nm db =
     (let db1 = db\<lparr>trip_stops_id_seq := trip_stops_id_seq db + 1\<rparr>
      in if \<not> int4 (trip_stops_id_seq db) then (None, db)
         else
           (case varchar 255 nm of
              None \<Rightarrow> (None, db1)
            | Some stored \<Rightarrow>
                (let row = \<lparr>stop_id = trip_stops_id_seq db, trip_id = tripId, position = p,
                            timeline_entry_id = entry, waypoint_location = loc,
                            waypoint_name = stored\<rparr>
                 in if int4 p \<and> stop_has_source row \<and> references_ok row db
                       \<and> unique_position_per_trip (trip_stops db @ [row])
                    then (Some row, db1\<lparr>trip_stops := trip_stops db @ [row]\<rparr>)
                    else (None, db1))))"

section \<open>POST /api/trips/:id/stops\<close>

text \<open>
  The JSON body, an object. A field that is absent or null is \<open>None\<close>.
  \<open>body.timeline_entry_id\<close> is tested for truthiness (0 is falsy); \<open>body.position\<close>,
  \<open>body.lat\<close> and \<open>body.lng\<close> are tested against null; \<open>body.name || null\<close> turns
  the empty string into null.
\<close>

record stop_body =
  body_position :: "int option"
  body_timeline_entry_id :: "int option"
  body_lat :: "int option"
  body_lng :: "int option"
  body_name :: "string option"

definition truthy :: "int option \<Rightarrow> bool" where
  "truthy v = (case v of None \<Rightarrow> False | Some n \<Rightarrow> n \<noteq> 0)"

definition name_or_null :: "string option \<Rightarrow> string option" where
  "name_or_null v = (case v of None \<Rightarrow> None | Some n \<Rightarrow> if n = [] then None else Some n)"

text \<open>Lines 288-302: the position is the explicit one, after making room, or max + 1.\<close>

definition determine_position :: "int \<Rightarrow> stop_body \<Rightarrow> database \<Rightarrow> (int \<times> database) option" where
  "determine_position tripId body db =
     (case body_position body of
        None \<Rightarrow> Some (max_position tripId db + 1, db)
      | Some p \<Rightarrow>
          (case shift_positions tripId p db of
             None \<Rightarrow> None
           | Some db1 \<Rightarrow> Some (p, db1)))"

text \<open>Lines 304-326: the outer \<open>None\<close> is the 400 answer of the final \<open>else\<close>.\<close>

definition insert_from_body ::
  "int \<Rightarrow> int \<Rightarrow> stop_body \<Rightarrow> database \<Rightarrow> (trip_stop option \<times> database) option" where
  "insert_from_body tripId p body db =
     (if truthy (body_timeline_entry_id body)
      then Some (insert_trip_stop tripId p (body_timeline_entry_id body) None None db)
      else if body_lat body \<noteq> None \<and> body_lng body \<noteq> None
      then Some (insert_trip_stop tripId p None
                   (Some (the (body_lng body), the (body_lat body)))
                   (name_or_null (body_name body)) db)
      else None)"

text \<open>
  Lines 328-347. The \<open>neighbors\<close> query has no ORDER BY: it returns the matching rows in
  scan order, so a stop that the shift has moved comes after one it has not moved.
\<close>

definition delete_segments_of_stop :: "int \<Rightarrow> int \<Rightarrow> database \<Rightarrow> database" where
  "delete_segments_of_stop tripId sid db =
     db\<lparr>trip_route_segments :=
          filter (\<lambda>g. \<not> (seg_trip_id g = tripId \<and> (from_stop_id g = sid \<or> to_stop_id g = sid)))
            (trip_route_segments db)\<rparr>"

definition neighbors :: "int \<Rightarrow> int \<Rightarrow> database \<Rightarrow> trip_stop list" where
  "neighbors tripId p db =
     filter (\<lambda>s. trip_id s = tripId \<and> (position s = p - 1 \<or> position s = p + 1))
       (trip_stops db)"

definition delete_segment_between :: "int \<Rightarrow> int \<Rightarrow> int \<Rightarrow> database \<Rightarrow> database" where
  "delete_segment_between tripId a b db =
     db\<lparr>trip_route_segments :=
          filter (\<lambda>g. \<not> (seg_trip_id g = tripId \<and> from_stop_id g = a \<and> to_stop_id g = b))
            (trip_route_segments db)\<rparr>"

definition invalidate_adjacent :: "int \<Rightarrow> trip_stop \<Rightarrow> int \<Rightarrow> database \<Rightarrow> database" where
  "invalidate_adjacent tripId stop p db =
     (let db1 = delete_segments_of_stop tripId (stop_id stop) db
      in case neighbors tripId p db1 of
           [n0, n1] \<Rightarrow> delete_segment_between tripId (stop_id n0) (stop_id n1) db1
         | _ \<Rightarrow> db1)"

definition add_stop :: "int \<Rightarrow> stop_body \<Rightarrow> database \<Rightarrow> (error + trip_stop) \<times> database" where
  "add_stop tripId body db =
     (case determine_position tripId body db of
        None \<Rightarrow> (Inl DatabaseError, db)
      | Some (p, db1) \<Rightarrow>
          (case insert_from_body tripId p body db1 of
             None \<Rightarrow> (Inl ValidationError, db1)
           | Some (None, db2) \<Rightarrow> (Inl DatabaseError, db2)
           | Some (Some stop, db2) \<Rightarrow> (Inr stop, invalidate_adjacent tripId stop p db2)))"

section \<open>DELETE /api/trips/:id/stops/:stopId\<close>

text \<open>
  \<open>DELETE FROM trip_stops WHERE id = stopId\<close> removes, through the two
  \<open>ON DELETE CASCADE\<close> foreign keys of \<open>trip_route_segments\<close>, every segment that has the
  stop as an endpoint.
\<close>

definition delete_trip_stop :: "int \<Rightarrow> database \<Rightarrow> database" where
  "delete_trip_stop stopId db =
     db\<lparr>trip_stops := filter (\<lambda>s. stop_id s \<noteq> stopId) (trip_stops db),
        trip_route_segments :=
          filter (\<lambda>g. from_stop_id g \<noteq> stopId \<and> to_stop_id g \<noteq> stopId) (trip_route_segments db)\<rparr>"

text \<open>\<open>UPDATE trip_stops SET position = position - 1 WHERE trip_id = tripId AND position > p\<close>\<close>

definition renumber :: "int \<Rightarrow> int \<Rightarrow> database \<Rightarrow> database option" where
  "renumber tripId p db =
     (case update_where (\<lambda>s. trip_id s = tripId \<and> position s > p) (moved (- 1)) (trip_stops db) of
        None \<Rightarrow> None
      | Some rows \<Rightarrow> Some (db\<lparr>trip_stops := rows\<rparr>))"

definition delete_stop :: "int \<Rightarrow> int \<Rightarrow> database \<Rightarrow> (error + unit) \<times> database" where
  "delete_stop tripId stopId db =
     (case filter (\<lambda>s. stop_id s = stopId \<and> trip_id s = tripId) (trip_stops db) of
        [] \<Rightarrow> (Inl NotFoundError, db)
      | stop # _ \<Rightarrow>
          (let db1 = delete_trip_stop stopId db
           in case renumber tripId (position stop) db1 of
                None \<Rightarrow> (Inl DatabaseError, db1)
              | Some db2 \<Rightarrow> (Inr (), db2)))"

section \<open>PUT /api/trips/:id/stops/reorder\<close>

text \<open>
  \<open>UPDATE trip_stops SET position = p WHERE id = stopId AND trip_id = tripId\<close>. The
  statement matches at most one row, so the constraint is checked on the table it
  produces. The row is rewritten where it stands: the order in which these rows are
  scanned afterwards plays no part in what is proved of this handler.
\<close>

definition set_position :: "int \<Rightarrow> int \<Rightarrow> int \<Rightarrow> trip_stop \<Rightarrow> trip_stop" where
  "set_position tripId stopId p s =
     (if stop_id s = stopId \<and> trip_id s = tripId then s\<lparr>position := p\<rparr> else s)"

definition update_position :: "int \<Rightarrow> int \<Rightarrow> int \<Rightarrow> database \<Rightarrow> database option" where
  "update_position tripId stopId p db =
     (let rows = map (set_position tripId stopId p) (trip_stops db)
      in if unique_position_per_trip rows then Some (db\<lparr>trip_stops := rows\<rparr>) else None)"

text \<open>
  Both loops of the handler, \<open>for (let i = 0; i < order.length; i++)\<close>, with the position
  expression as the parameter \<open>f\<close>: \<open>-(i + 1)\<close> in the first loop, \<open>i\<close> in the second. A
  failing statement ends the handler; the statements before it stay in effect.
\<close>

fun position_loop ::
  "int \<Rightarrow> (int \<Rightarrow> int) \<Rightarrow> int list \<Rightarrow> int \<Rightarrow> database \<Rightarrow> error option \<times> database" where
  "position_loop tripId f [] i db = (None, db)"
| "position_loop tripId f (stopId # rest) i db =
     (case update_position tripId stopId (f i) db of
        None \<Rightarrow> (Some DatabaseError, db)
      | Some db1 \<Rightarrow> position_loop tripId f rest (i + 1) db1)"

definition delete_segments_of_trip :: "int \<Rightarrow> database \<Rightarrow> database" where
  "delete_segments_of_trip tripId db =
     db\<lparr>trip_route_segments := filter (\<lambda>g. seg_trip_id g \<noteq> tripId) (trip_route_segments db)\<rparr>"

text \<open>
  \<open>order\<close> is \<open>None\<close> when the body's \<open>order\<close> is not an array (the only check the handler
  makes on it), else the array of stop ids.
\<close>

definition reorder_stops :: "int \<Rightarrow> int list option \<Rightarrow> database \<Rightarrow> (error + unit) \<times> database" where
  "reorder_stops tripId order db =
     (case order of
        None \<Rightarrow> (Inl ValidationError, db)
      | Some ids \<Rightarrow>
          (let db1 = delete_segments_of_trip tripId db
           in case position_loop tripId (\<lambda>i. - (i + 1)) ids 0 db1 of
                (Some e, db2) \<Rightarrow> (Inl e, db2)
              | (None, db2) \<Rightarrow>
                  (case position_loop tripId (\<lambda>i. i) ids 0 db2 of
                     (Some e, db3) \<Rightarrow> (Inl e, db3)
                   | (None, db3) \<Rightarrow> (Inr (), db3))))"

section \<open>Mapbox Directions\<close>

text \<open>
  \<open>fetchRouteSegment\<close> makes one request and throws unless the response has code \<open>Ok\<close> and a
  non-empty route list; \<open>fetch\<close> itself may reject (transport failure). The outcome of the
  request is the argument here. The second test of the source, \<open>if (!route)\<close>, cannot fire
  on a non-empty list of routes.
\<close>

record route_segment =
  geometry :: "(int \<times> int) list"
  distance :: int
  duration :: int

record mapbox_directions_response =
  code :: string
  routes :: "route_segment list option"

datatype fetch_outcome = Rejected string | Responded mapbox_directions_response

definition fetchRouteSegment :: "fetch_outcome \<Rightarrow> string + route_segment" where
  "fetchRouteSegment outcome =
     (case outcome of
        Rejected msg \<Rightarrow> Inl msg
      | Responded data \<Rightarrow>
          (case routes data of
             None \<Rightarrow> Inl (''Mapbox Directions failed: '' @ code data)
           | Some [] \<Rightarrow> Inl (''Mapbox Directions failed: '' @ code data)
           | Some (route # _) \<Rightarrow>
               if code data \<noteq> ''Ok'' then Inl (''Mapbox Directions failed: '' @ code data)
               else Inr route))"

text \<open>
  The routing service is outside the program: \<open>net k (fromLng, fromLat, toLng, toLat)\<close> is
  the outcome of the request with these coordinates when \<open>k\<close> requests were made before it
  while serving the same call of the handler.
\<close>

type_synonym network = "nat \<Rightarrow> int \<times> int \<times> int \<times> int \<Rightarrow> fetch_outcome"

section \<open>loadStopsWithCoords and buildTripResponse\<close>

text \<open>
  Of the selected columns \<open>id\<close>, \<open>position\<close>, \<open>lng\<close> and \<open>lat\<close> are kept. The coordinates
  come from the joined timeline entry when the stop references one, else from the
  waypoint; they are NULL when that location is NULL.
\<close>

record stop_with_coords =
  sc_id :: int
  sc_position :: int
  sc_lng :: "int option"
  sc_lat :: "int option"

definition stop_location :: "database \<Rightarrow> trip_stop \<Rightarrow> (int \<times> int) option" where
  "stop_location db s =
     (case timeline_entry_id s of
        Some e \<Rightarrow> (case map_of (timeline_entries db) e of None \<Rightarrow> None | Some loc \<Rightarrow> loc)
      | None \<Rightarrow> waypoint_location s)"

definition with_coords :: "database \<Rightarrow> trip_stop \<Rightarrow> stop_with_coords" where
  "with_coords db s =
     \<lparr>sc_id = stop_id s, sc_position = position s,
      sc_lng = map_option fst (stop_location db s),
      sc_lat = map_option snd (stop_location db s)\<rparr>"

definition loadStopsWithCoords :: "int \<Rightarrow> database \<Rightarrow> stop_with_coords list" where
  "loadStopsWithCoords tripId db = map (with_coords db) (sort_key position (stops_of tripId db))"

definition segments_of :: "int \<Rightarrow> database \<Rightarrow> trip_route_segment list" where
  "segments_of tripId db = filter (\<lambda>g. seg_trip_id g = tripId) (trip_route_segments db)"

definition buildTripResponse ::
  "int \<Rightarrow> database \<Rightarrow> (stop_with_coords list \<times> trip_route_segment list) option" where
  "buildTripResponse tripId db =
     (if tripId \<in> set (trips db)
      then Some (loadStopsWithCoords tripId db, segments_of tripId db)
      else None)"

section \<open>POST /api/trips/:id/routes\<close>

text \<open>\<open>Number(null)\<close> is 0.\<close>

definition Number :: "int option \<Rightarrow> int" where
  "Number v = (case v of None \<Rightarrow> 0 | Some n \<Rightarrow> n)"

definition is_segment :: "int \<Rightarrow> int \<Rightarrow> int \<Rightarrow> trip_route_segment \<Rightarrow> bool" where
  "is_segment tripId a b g = (seg_trip_id g = tripId \<and> from_stop_id g = a \<and> to_stop_id g = b)"

text \<open>\<open>SELECT id FROM trip_route_segments WHERE trip_id = .. AND from_stop_id = .. AND to_stop_id = ..\<close>\<close>

definition existing :: "int \<Rightarrow> int \<Rightarrow> int \<Rightarrow> database \<Rightarrow> bool" where
  "existing tripId a b db = (filter (is_segment tripId a b) (trip_route_segments db) \<noteq> [])"

text \<open>
  \<open>INSERT INTO trip_route_segments ... ON CONFLICT (trip_id, from_stop_id, to_stop_id) DO UPDATE\<close>:
  the row with this key is overwritten in place, or else a row with the next id of the
  sequence is added. Its foreign keys hold by construction: both stops were just read from
  \<open>trip_stops\<close> for this trip.
\<close>

definition upsert_segment :: "int \<Rightarrow> int \<Rightarrow> int \<Rightarrow> route_segment \<Rightarrow> database \<Rightarrow> database" where
  "upsert_segment tripId a b route db =
     (let db1 = db\<lparr>trip_route_segments_id_seq := trip_route_segments_id_seq db + 1\<rparr>
      in if existing tripId a b db
         then db1\<lparr>trip_route_segments :=
                map (\<lambda>g. if is_segment tripId a b g
                          then g\<lparr>route_geometry := geometry route,
                                 distance_meters := distance route,
                                 duration_seconds := duration route\<rparr>
                          else g)
                  (trip_route_segments db)\<rparr>
         else db1\<lparr>trip_route_segments :=
                trip_route_segments db @
                  [\<lparr>seg_id = trip_route_segments_id_seq db, seg_trip_id = tripId,
                    from_stop_id = a, to_stop_id = b, route_geometry = geometry route,
                    distance_meters = distance route, duration_seconds = duration route\<rparr>]\<rparr>)"

text \<open>
  The loop \<open>for (let i = 0; i < stops.length - 1; i++)\<close> over the pairs
  \<open>stops[i]\<close>, \<open>stops[i + 1]\<close>. \<open>calls\<close> records, as \<open>(from.id, to.id)\<close>, the pairs for which
  \<open>fetchRouteSegment\<close> has been called. A thrown error ends the loop with its message.
\<close>

fun route_loop ::
  "int \<Rightarrow> bool \<Rightarrow> network \<Rightarrow> stop_with_coords list \<Rightarrow> (int \<times> int) list \<Rightarrow> database
     \<Rightarrow> string option \<times> (int \<times> int) list \<times> database" where
  "route_loop tripId force net (from # to # rest) calls db =
     (if \<not> force \<and> existing tripId (sc_id from) (sc_id to) db
      then route_loop tripId force net (to # rest) calls db
      else
        (case fetchRouteSegment
                (net (length calls)
                   (Number (sc_lng from), Number (sc_lat from),
                    Number (sc_lng to), Number (sc_lat to))) of
           Inl msg \<Rightarrow> (Some msg, calls @ [(sc_id from, sc_id to)], db)
         | Inr route \<Rightarrow>
             route_loop tripId force net (to # rest) (calls @ [(sc_id from, sc_id to)])
               (upsert_segment tripId (sc_id from) (sc_id to) route db)))"
| "route_loop tripId force net stops calls db = (None, calls, db)"

definition generate_routes ::
  "int \<Rightarrow> bool \<Rightarrow> network \<Rightarrow> database
     \<Rightarrow> (error + (stop_with_coords list \<times> trip_route_segment list) option)
         \<times> (int \<times> int) list \<times> database" where
  "generate_routes tripId force net db =
     (let stops = loadStopsWithCoords tripId db
      in if length stops < 2 then (Inl ValidationError, [], db)
         else
           (let db1 = (if force then delete_segments_of_trip tripId db else db)
            in case route_loop tripId force net stops [] db1 of
                 (Some msg, calls, db2) \<Rightarrow> (Inl (RouteUnavailable msg), calls, db2)
               | (None, calls, db2) \<Rightarrow> (Inr (buildTripResponse tripId db2), calls, db2)))"

section \<open>Integrity of the stored data\<close>

text \<open>
  What the schema and the sequences guarantee of any stored state: \<open>id\<close> is the primary key
  of \<open>trip_stops\<close>, positions are unique per trip, the SERIAL sequence is ahead of every
  stored id, both stop columns of a segment reference stored stops, and every stored
  position is a 32-bit integer.
\<close>

definition wf_db :: "database \<Rightarrow> bool" where
  "wf_db db =
     (distinct (map stop_id (trip_stops db))
      \<and> unique_position_per_trip (trip_stops db)
      \<and> list_all (\<lambda>s. stop_id s < trip_stops_id_seq db) (trip_stops db)
      \<and> list_all (\<lambda>g. from_stop_id g \<in> set (map stop_id (trip_stops db))
                      \<and> to_stop_id g \<in> set (map stop_id (trip_stops db)))
           (trip_route_segments db)
      \<and> list_all (\<lambda>s. int4 (position s)) (trip_stops db))"

text \<open>The central invariant of the data model: the positions of a trip are \<open>0, ..., N - 1\<close>.\<close>

definition positions_of :: "int \<Rightarrow> database \<Rightarrow> int list" where
  "positions_of tripId db = map position (stops_of tripId db)"


text \<open>The stops of the trip are scanned in position order, and their positions are \<open>0, ..., N - 1\<close>.\<close>

definition in_order :: "int \<Rightarrow> database \<Rightarrow> bool" where
  "in_order tripId db = (positions_of tripId db = map int [0 ..< length (stops_of tripId db)])"

section \<open>The location source of a request\<close>

text \<open>
  The two sources of a request: a timeline-entry reference (an id; 0 counts as none), and
  a coordinate (both a latitude and a longitude).
\<close>

definition entry_supplied :: "stop_body \<Rightarrow> bool" where
  "entry_supplied body =
     (case body_timeline_entry_id body of None \<Rightarrow> False | Some e \<Rightarrow> e \<noteq> 0)"

definition coordinate_supplied :: "stop_body \<Rightarrow> bool" where
  "coordinate_supplied body = (body_lat body \<noteq> None \<and> body_lng body \<noteq> None)"

text \<open>The row that the handler's INSERT writes for an accepted request, by branch.\<close>

definition new_stop :: "int \<Rightarrow> int \<Rightarrow> int \<Rightarrow> stop_body \<Rightarrow> trip_stop" where
  "new_stop i tripId p body =
     \<lparr>stop_id = i, trip_id = tripId, position = p,
      timeline_entry_id = (if entry_supplied body then body_timeline_entry_id body else None),
      waypoint_location =
        (if entry_supplied body then None else Some (the (body_lng body), the (body_lat body))),
      waypoint_name =
        (if entry_supplied body then None
         else map_option (take 255) (name_or_null (body_name body)))\<rparr>"

section \<open>Sequences of inserts and deletes on one trip\<close>

text \<open>
  A sequence of requests to the two stop handlers for one trip, run from left to right.
  An insert appends when it names no position, or names the number of stops the trip has
  at that moment; a sequence is appending when each of its inserts appends.
\<close>

datatype stop_op = Insert stop_body | Delete int

fun apply_op :: "int \<Rightarrow> stop_op \<Rightarrow> database \<Rightarrow> database" where
  "apply_op tripId (Insert body) db = snd (add_stop tripId body db)"
| "apply_op tripId (Delete stopId) db = snd (delete_stop tripId stopId db)"

fun run_ops :: "int \<Rightarrow> stop_op list \<Rightarrow> database \<Rightarrow> database" where
  "run_ops tripId [] db = db"
| "run_ops tripId (op # ops) db = run_ops tripId ops (apply_op tripId op db)"



section \<open>The rows a position loop writes\<close>

text \<open>
  \<open>relabel\<close> is the table after the statements of a position loop when none of them is
  rejected; \<open>idx ids x\<close> is the index of the first occurrence of \<open>x\<close> in \<open>ids\<close>.
\<close>

fun relabel :: "int \<Rightarrow> (int \<Rightarrow> int) \<Rightarrow> int list \<Rightarrow> int \<Rightarrow> trip_stop list \<Rightarrow> trip_stop list" where
  "relabel tripId f [] i rows = rows"
| "relabel tripId f (stopId # rest) i rows =
     relabel tripId f rest (i + 1) (map (set_position tripId stopId (f i)) rows)"

fun idx :: "int list \<Rightarrow> int \<Rightarrow> int" where
  "idx [] x = 0"
| "idx (y # ys) x = (if x = y then 0 else 1 + idx ys x)"

text \<open>
  The intermediate states of a reorder: \<open>stage_steps k\<close> is the outcome of the first \<open>k\<close>
  statements of the first loop (after the segments are deleted), \<open>final_steps k\<close> the
  outcome of the first \<open>k\<close> statements of the second loop (after the whole first loop).
\<close>

definition stage_steps :: "int \<Rightarrow> int list \<Rightarrow> nat \<Rightarrow> database \<Rightarrow> error option \<times> database" where
  "stage_steps tripId ids k db =
     position_loop tripId (\<lambda>i. - (i + 1)) (take k ids) 0 (delete_segments_of_trip tripId db)"

definition final_steps :: "int \<Rightarrow> int list \<Rightarrow> nat \<Rightarrow> database \<Rightarrow> error option \<times> database" where
  "final_steps tripId ids k db =
     position_loop tripId (\<lambda>i. i) (take k ids) 0 (snd (stage_steps tripId ids (length ids) db))"

section \<open>The consecutive pairs of a trip\<close>

text \<open>
  The pairs \<open>(stops[i].id, stops[i + 1].id)\<close> that the route loop visits, in position order,
  and a routing service that answers every request with a route.
\<close>

definition consecutive :: "'a list \<Rightarrow> ('a \<times> 'a) list" where
  "consecutive xs = zip xs (tl xs)"

definition pairs_of :: "int \<Rightarrow> database \<Rightarrow> (int \<times> int) list" where
  "pairs_of tripId db = consecutive (map sc_id (loadStopsWithCoords tripId db))"

definition always_routes :: "network \<Rightarrow> bool" where
  "always_routes net = (\<forall>k c. \<not> isl (fetchRouteSegment (net k c)))"






text \<open>
  What a route loop that ends with an error at the pair \<open>ps ! k\<close> has done: its requests
  are for earlier pairs and then for \<open>ps ! k\<close>; the earlier pairs are cached; the segments
  of every other pair are as they were; and with force unset the failing pair has no
  cached segment.
\<close>

definition failed_at ::
  "int \<Rightarrow> bool \<Rightarrow> (int \<times> int) list \<Rightarrow> nat \<Rightarrow> (int \<times> int) list \<Rightarrow> (int \<times> int) list
     \<Rightarrow> database \<Rightarrow> database \<Rightarrow> bool" where
  "failed_at tripId force ps k calls calls' db db' =
     (k < length ps
      \<and> (\<exists>new. calls' = calls @ new @ [ps ! k] \<and> set new \<subseteq> set (take k ps)
                \<and> (force \<longrightarrow> new = take k ps))
      \<and> list_all (\<lambda>p. existing tripId (fst p) (snd p) db') (take k ps)
      \<and> (\<forall>a b. (a, b) \<notin> set (take k ps) \<longrightarrow>
            filter (is_segment tripId a b) (trip_route_segments db')
              = filter (is_segment tripId a b) (trip_route_segments db))
      \<and> (\<not> force \<longrightarrow> \<not> existing tripId (fst (ps ! k)) (snd (ps ! k)) db'))"

section \<open>Example states\<close>

text \<open>
  Trip 1 with the waypoint stops A, B, C (ids 1, 2, 3) at positions 0, 1, 2, stored in this
  order, and the cached segments A\<rightarrow>B and B\<rightarrow>C; trip 2 with one stop; trip 3 without stops.
\<close>

definition waypoint_stop :: "int \<Rightarrow> int \<Rightarrow> int \<Rightarrow> trip_stop" where
  "waypoint_stop i t p =
     \<lparr>stop_id = i, trip_id = t, position = p, timeline_entry_id = None,
      waypoint_location = Some (i, i), waypoint_name = None\<rparr>"

definition cached_segment :: "int \<Rightarrow> int \<Rightarrow> int \<Rightarrow> int \<Rightarrow> trip_route_segment" where
  "cached_segment i t a b =
     \<lparr>seg_id = i, seg_trip_id = t, from_stop_id = a, to_stop_id = b,
      route_geometry = [(a, a), (b, b)], distance_meters = 100, duration_seconds = 60\<rparr>"

definition example_db :: database where
  "example_db =
     \<lparr>trips = [1, 2, 3], timeline_entries = [(7, Some (10, 20))],
      trip_stops = [waypoint_stop 1 1 0, waypoint_stop 2 1 1, waypoint_stop 3 1 2,
                    waypoint_stop 4 2 0],
      trip_route_segments = [cached_segment 1 1 1 2, cached_segment 2 1 2 3],
      trip_stops_id_seq = 5, trip_route_segments_id_seq = 3\<rparr>"

text \<open>
  Request bodies: a waypoint D at the given position (or appended), a body without any
  source, and a body with both sources.
\<close>

definition waypoint_body :: "int option \<Rightarrow> stop_body" where
  "waypoint_body p =
     \<lparr>body_position = p, body_timeline_entry_id = None, body_lat = Some 48,
      body_lng = Some 11, body_name = Some ''D''\<rparr>"

definition empty_body :: "int option \<Rightarrow> stop_body" where
  "empty_body p =
     \<lparr>body_position = p, body_timeline_entry_id = None, body_lat = None,
      body_lng = None, body_name = None\<rparr>"

definition both_body :: stop_body where
  "both_body =
     \<lparr>body_position = None, body_timeline_entry_id = Some 7, body_lat = Some 48,
      body_lng = Some 11, body_name = None\<rparr>"

text \<open>
  The state after three inserts into trip 3: a stop appended, then two stops inserted at
  position 0. Each insert shifts the stops before it, so the rows of the trip (ids 5, 6,
  7) are scanned in the order of positions 2, 1, 0.
\<close>

definition stacked_db :: database where
  "stacked_db =
     example_db\<lparr>trip_stops :=
                  [waypoint_stop 1 1 0, waypoint_stop 2 1 1, waypoint_stop 3 1 2,
                   waypoint_stop 4 2 0,
                   \<lparr>stop_id = 5, trip_id = 3, position = 2, timeline_entry_id = None,
                    waypoint_location = Some (11, 48), waypoint_name = Some ''D''\<rparr>,
                   \<lparr>stop_id = 6, trip_id = 3, position = 1, timeline_entry_id = None,
                    waypoint_location = Some (11, 48), waypoint_name = Some ''D''\<rparr>,
                   \<lparr>stop_id = 7, trip_id = 3, position = 0, timeline_entry_id = None,
                    waypoint_location = Some (11, 48), waypoint_name = Some ''D''\<rparr>],
                trip_stops_id_seq := 8\<rparr>"

text \<open>
  The state that the reorder request with the array \<open>[2]\<close> leaves of \<open>example_db\<close>: the
  segments of trip 1 are gone and stop 2 is at position -1.
\<close>

definition staged_db :: database where
  "staged_db =
     example_db\<lparr>trip_stops :=
                  [waypoint_stop 1 1 0, waypoint_stop 2 1 (- 1), waypoint_stop 3 1 2,
                   waypoint_stop 4 2 0],
                trip_route_segments := []\<rparr>"


definition a_route :: route_segment where
  "a_route = \<lparr>geometry = [(0, 0), (1, 1)], distance = 100, duration = 60\<rparr>"

definition good_net :: network where
  "good_net k c = Responded \<lparr>code = ''Ok'', routes = Some [a_route]\<rparr>"

definition no_route :: fetch_outcome where
  "no_route = Responded \<lparr>code = ''NoRoute'', routes = Some []\<rparr>"

definition fail_first :: network where
  "fail_first k c = no_route"

definition fail_second :: network where
  "fail_second k c = (if k = 0 then Responded \<lparr>code = ''Ok'', routes = Some [a_route]\<rparr> else no_route)"


section \<open>Facts about the statements on \<open>trip_stops\<close>\<close>

lemma moved_fields [simp]:
  "stop_id (moved d s) = stop_id s" "trip_id (moved d s) = trip_id s"
  "position (moved d s) = position s + d"
  "timeline_entry_id (moved d s) = timeline_entry_id s"
  "waypoint_location (moved d s) = waypoint_location s"
  by (simp_all add: moved_def)

lemma moved_key: "stop_key (moved d s) = (trip_id s, position s + d)"
  by (simp add: stop_key_def)

lemma set_position_ids [simp]:
  "stop_id (set_position t i p s) = stop_id s" "trip_id (set_position t i p s) = trip_id s"
  by (simp_all add: set_position_def)

lemma write_rows_Some:
  "write_rows f pending kept written = Some rows \<Longrightarrow> rows = kept @ written @ map f pending"
proof (induction pending arbitrary: written)
  case Nil
  then show ?case by simp
next
  case (Cons r pending)
  from Cons.prems have "write_rows f pending kept (written @ [f r]) = Some rows"
    by (simp split: if_splits)
  from Cons.IH[OF this] show ?case by simp
qed

lemma write_rows_unique:
  "write_rows f pending kept written = Some rows \<Longrightarrow>
   distinct (map stop_key (kept @ written)) \<Longrightarrow> distinct (map stop_key rows)"
proof (induction pending arbitrary: written)
  case Nil
  then show ?case by simp
next
  case (Cons r pending)
  from Cons.prems(1) have ok: "stop_key (f r) \<notin> set (map stop_key (pending @ kept @ written))"
    and rec: "write_rows f pending kept (written @ [f r]) = Some rows"
    by (simp_all split: if_splits)
  have "distinct (map stop_key (kept @ written @ [f r]))"
    using Cons.prems(2) ok by auto
  then show ?case using Cons.IH[OF rec] by simp
qed

lemma write_rows_int4:
  "write_rows f pending kept written = Some rows \<Longrightarrow>
   list_all (\<lambda>s. int4 (position s)) (kept @ written) \<Longrightarrow> list_all (\<lambda>s. int4 (position s)) rows"
proof (induction pending arbitrary: written)
  case Nil
  then show ?case by simp
next
  case (Cons r pending)
  from Cons.prems(1) have ok: "int4 (position (f r))"
    and rec: "write_rows f pending kept (written @ [f r]) = Some rows"
    by (simp_all split: if_splits)
  have "list_all (\<lambda>s. int4 (position s)) (kept @ written @ [f r])"
    using Cons.prems(2) ok by simp
  then show ?case using Cons.IH[OF rec] by simp
qed


lemma update_where_Some:
  "update_where P f rows = Some rows' \<Longrightarrow>
   rows' = filter (\<lambda>r. \<not> P r) rows @ map f (filter P rows)"
  by (auto simp: update_where_def dest: write_rows_Some)


lemma update_where_unique:
  assumes "update_where P f rows = Some rows'" and "unique_position_per_trip rows"
  shows "unique_position_per_trip rows'"
proof -
  have "distinct (map stop_key (filter (\<lambda>r. \<not> P r) rows @ []))"
    using assms(2) by (simp add: unique_position_per_trip_def distinct_map_filter)
  then show ?thesis
    using write_rows_unique[of f "filter P rows" "filter (\<lambda>r. \<not> P r) rows" "[]" rows'] assms(1)
    by (simp add: update_where_def unique_position_per_trip_def)
qed

lemma update_where_int4:
  assumes "update_where P f rows = Some rows'" and "list_all (\<lambda>s. int4 (position s)) rows"
  shows "list_all (\<lambda>s. int4 (position s)) rows'"
proof -
  have "list_all (\<lambda>s. int4 (position s)) (filter (\<lambda>r. \<not> P r) rows @ [])"
    using assms(2) by (simp add: list_all_iff)
  then show ?thesis
    using write_rows_int4[of f "filter P rows" "filter (\<lambda>r. \<not> P r) rows" "[]" rows'] assms(1)
    by (simp add: update_where_def)
qed

lemma partition_ids:
  assumes "\<And>s. stop_id (f s) = stop_id s"
  shows "set (map stop_id (filter (\<lambda>r. \<not> P r) rows @ map f (filter P rows))) = set (map stop_id rows)"
    and "length (filter (\<lambda>r. \<not> P r) rows @ map f (filter P rows)) = length rows"
    and "distinct (map stop_id rows) \<Longrightarrow>
         distinct (map stop_id (filter (\<lambda>r. \<not> P r) rows @ map f (filter P rows)))"
proof -
  have m: "map stop_id (map f (filter P rows)) = map stop_id (filter P rows)"
    by (simp add: assms)
  show "set (map stop_id (filter (\<lambda>r. \<not> P r) rows @ map f (filter P rows))) = set (map stop_id rows)"
    unfolding map_append m by auto
  show "length (filter (\<lambda>r. \<not> P r) rows @ map f (filter P rows)) = length rows"
    using sum_length_filter_compl[of P rows] by simp
  assume d: "distinct (map stop_id rows)"
  then have inj: "inj_on stop_id (set rows)" by (simp add: distinct_map)
  have "stop_id ` set (filter (\<lambda>r. \<not> P r) rows) \<inter> stop_id ` set (filter P rows) = {}"
  proof (rule ccontr)
    assume "stop_id ` set (filter (\<lambda>r. \<not> P r) rows) \<inter> stop_id ` set (filter P rows) \<noteq> {}"
    then obtain x y where "x \<in> set rows" "\<not> P x" "y \<in> set rows" "P y" "stop_id x = stop_id y"
      by auto
    then show False using inj by (auto dest: inj_onD)
  qed
  then show "distinct (map stop_id (filter (\<lambda>r. \<not> P r) rows @ map f (filter P rows)))"
    unfolding map_append m using d by (simp add: distinct_map_filter)
qed

lemma stops_of_simps [simp]:
  "stops_of t (db\<lparr>trip_route_segments := g\<rparr>) = stops_of t db"
  "stops_of t (db\<lparr>trip_stops_id_seq := n\<rparr>) = stops_of t db"
  "stops_of t (db\<lparr>trip_route_segments_id_seq := n\<rparr>) = stops_of t db"
  by (simp_all add: stops_of_def)

lemma in_stops_of: "r \<in> set (stops_of t db) \<Longrightarrow> trip_id r = t \<and> r \<in> set (trip_stops db)"
  by (simp add: stops_of_def)

lemma stops_of_map:
  assumes "\<And>s. trip_id (f s) = trip_id s"
  shows "stops_of t (db\<lparr>trip_stops := map f (trip_stops db)\<rparr>) = map f (stops_of t db)"
  by (simp add: stops_of_def filter_map o_def assms)

text \<open>Shifting and renumbering: what an accepted statement leaves.\<close>

lemma shift_positions_cases:
  obtains (raised) "shift_positions t p db = None"
  | (shifted) rows where "shift_positions t p db = Some (db\<lparr>trip_stops := rows\<rparr>)"
      "rows = filter (\<lambda>s. \<not> (trip_id s = t \<and> p \<le> position s)) (trip_stops db)
              @ map (moved 1) (filter (\<lambda>s. trip_id s = t \<and> p \<le> position s) (trip_stops db))"
      "update_where (\<lambda>s. trip_id s = t \<and> p \<le> position s) (moved 1) (trip_stops db) = Some rows"
proof (cases "update_where (\<lambda>s. trip_id s = t \<and> p \<le> position s) (moved 1) (trip_stops db)")
  case None
  then show ?thesis by (intro raised) (simp add: shift_positions_def)
next
  case (Some rows)
  show ?thesis
    by (rule shifted[of rows]) (simp_all add: shift_positions_def Some update_where_Some[OF Some])
qed

lemma renumber_cases:
  obtains (raised) "renumber t p db = None"
  | (renumbered) rows where "renumber t p db = Some (db\<lparr>trip_stops := rows\<rparr>)"
      "rows = filter (\<lambda>s. \<not> (trip_id s = t \<and> p < position s)) (trip_stops db)
              @ map (moved (- 1)) (filter (\<lambda>s. trip_id s = t \<and> p < position s) (trip_stops db))"
      "update_where (\<lambda>s. trip_id s = t \<and> p < position s) (moved (- 1)) (trip_stops db) = Some rows"
proof (cases "update_where (\<lambda>s. trip_id s = t \<and> p < position s) (moved (- 1)) (trip_stops db)")
  case None
  then show ?thesis by (intro raised) (simp add: renumber_def)
next
  case (Some rows)
  show ?thesis
    by (rule renumbered[of rows]) (simp_all add: renumber_def Some update_where_Some[OF Some])
qed


section \<open>Integrity is preserved by the stop handlers\<close>

lemma wf_update_where:
  assumes wf: "wf_db db" and up: "update_where P (moved d) (trip_stops db) = Some rows"
  shows "wf_db (db\<lparr>trip_stops := rows\<rparr>)"
proof -
  let ?rows = "filter (\<lambda>r. \<not> P r) (trip_stops db) @ map (moved d) (filter P (trip_stops db))"
  have rows: "rows = ?rows" using update_where_Some[OF up] .
  have ids: "set (map stop_id ?rows) = set (map stop_id (trip_stops db))"
    by (rule partition_ids(1)) simp
  have 1: "distinct (map stop_id ?rows)"
    using wf by (intro partition_ids(3)) (simp_all add: wf_db_def)
  have 2: "unique_position_per_trip rows"
    using update_where_unique[OF up] wf by (simp add: wf_db_def)
  have 3: "list_all (\<lambda>s. stop_id s < trip_stops_id_seq db) ?rows"
    using wf by (auto simp: wf_db_def list_all_iff)
  have 4: "list_all (\<lambda>g. from_stop_id g \<in> set (map stop_id ?rows) \<and> to_stop_id g \<in> set (map stop_id ?rows))
             (trip_route_segments db)"
    using wf unfolding ids by (simp add: wf_db_def)
  have 5: "list_all (\<lambda>s. int4 (position s)) rows"
    using update_where_int4[OF up] wf by (simp add: wf_db_def)
  show ?thesis using 1 2 3 4 5 unfolding rows[symmetric] wf_db_def by simp
qed

lemma wf_shift_positions:
  assumes "wf_db db" and "shift_positions t p db = Some db1"
  shows "wf_db db1"
proof (cases rule: shift_positions_cases[of t p db])
  case raised
  then show ?thesis using assms(2) by simp
next
  case (shifted rows)
  then show ?thesis using wf_update_where[OF assms(1) shifted(3)] assms(2) by simp
qed

lemma wf_renumber:
  assumes "wf_db db" and "renumber t p db = Some db1"
  shows "wf_db db1"
proof (cases rule: renumber_cases[of t p db])
  case raised
  then show ?thesis using assms(2) by simp
next
  case (renumbered rows)
  then show ?thesis using wf_update_where[OF assms(1) renumbered(3)] assms(2) by simp
qed

lemma filter_by_id:
  assumes "distinct (map stop_id rows)" and "s \<in> set rows"
  shows "filter (\<lambda>r. stop_id r = stop_id s) rows = [s]"
  using assms
proof (induction rows)
  case Nil then show ?case by simp
next
  case (Cons r rows)
  show ?case
  proof (cases "r = s")
    case True
    have "filter (\<lambda>r. stop_id r = stop_id s) rows = []"
      using Cons.prems(1) True by (auto simp: filter_empty_conv image_iff)
    then show ?thesis using True by simp
  next
    case False
    then have "s \<in> set rows" using Cons.prems(2) by simp
    moreover have "stop_id r \<noteq> stop_id s" using Cons.prems(1) \<open>s \<in> set rows\<close> by auto
    ultimately show ?thesis using Cons by simp
  qed
qed

lemma find_stop:
  assumes "distinct (map stop_id rows)" and "s \<in> set rows" and "trip_id s = t"
  shows "filter (\<lambda>r. stop_id r = stop_id s \<and> trip_id r = t) rows = [s]"
proof -
  have "filter (\<lambda>r. stop_id r = stop_id s \<and> trip_id r = t) rows
        = filter (\<lambda>r. trip_id r = t) (filter (\<lambda>r. stop_id r = stop_id s) rows)"
    by (simp add: conj_commute)
  then show ?thesis using assms by (simp add: filter_by_id)
qed

lemma delete_stop_missing:
  assumes "stopId \<notin> set (map stop_id (stops_of tripId db))"
  shows "delete_stop tripId stopId db = (Inl NotFoundError, db)"
proof -
  have "filter (\<lambda>s. stop_id s = stopId \<and> trip_id s = tripId) (trip_stops db) = []"
    using assms by (auto simp: filter_empty_conv stops_of_def)
  then show ?thesis by (simp add: delete_stop_def)
qed

lemma delete_stop_cases:
  obtains (missing) "stopId \<notin> set (map stop_id (stops_of tripId db))"
  | (found) s where "s \<in> set (stops_of tripId db)" "stop_id s = stopId"
  by auto

lemma delete_stop_found:
  assumes d: "distinct (map stop_id (trip_stops db))" and s: "s \<in> set (stops_of tripId db)"
  shows "delete_stop tripId (stop_id s) db =
          (case renumber tripId (position s) (delete_trip_stop (stop_id s) db) of
             None \<Rightarrow> (Inl DatabaseError, delete_trip_stop (stop_id s) db)
           | Some db2 \<Rightarrow> (Inr (), db2))"
proof -
  have s': "s \<in> set (trip_stops db)" "trip_id s = tripId" using s by (simp_all add: stops_of_def)
  have f: "filter (\<lambda>r. stop_id r = stop_id s \<and> trip_id r = tripId) (trip_stops db) = [s]"
    using find_stop[OF d s'] .
  show ?thesis by (simp add: delete_stop_def f Let_def)
qed

lemma wf_delete_trip_stop:
  assumes wf: "wf_db db"
  shows "wf_db (delete_trip_stop stopId db)"
proof -
  let ?rows = "filter (\<lambda>s. stop_id s \<noteq> stopId) (trip_stops db)"
  have ids: "set (map stop_id ?rows) = set (map stop_id (trip_stops db)) - {stopId}" by auto
  have 1: "distinct (map stop_id ?rows)" using wf by (simp add: wf_db_def distinct_map_filter)
  have 2: "unique_position_per_trip ?rows"
    using wf by (simp add: wf_db_def unique_position_per_trip_def distinct_map_filter)
  have 3: "list_all (\<lambda>r. stop_id r < trip_stops_id_seq db) ?rows"
    using wf by (simp add: wf_db_def list_all_iff)
  have 4: "list_all (\<lambda>g. from_stop_id g \<in> set (map stop_id ?rows) \<and> to_stop_id g \<in> set (map stop_id ?rows))
             (filter (\<lambda>g. from_stop_id g \<noteq> stopId \<and> to_stop_id g \<noteq> stopId) (trip_route_segments db))"
    using wf unfolding ids by (simp add: wf_db_def list_all_iff)
  have 5: "list_all (\<lambda>s. int4 (position s)) ?rows"
    using wf by (simp add: wf_db_def list_all_iff)
  show ?thesis using 1 2 3 4 5 by (simp add: wf_db_def delete_trip_stop_def)
qed

lemma wf_delete_stop:
  assumes wf: "wf_db db"
  shows "wf_db (snd (delete_stop tripId stopId db))"
proof (cases rule: delete_stop_cases[of stopId tripId db])
  case missing
  then show ?thesis using wf by (simp add: delete_stop_missing)
next
  case (found s)
  have d: "distinct (map stop_id (trip_stops db))" using wf by (simp add: wf_db_def)
  have wf1: "wf_db (delete_trip_stop (stop_id s) db)" using wf by (rule wf_delete_trip_stop)
  show ?thesis
  proof (cases "renumber tripId (position s) (delete_trip_stop (stop_id s) db)")
    case None
    then show ?thesis using delete_stop_found[OF d found(1)] found(2) wf1 by simp
  next
    case (Some db2)
    then show ?thesis
      using delete_stop_found[OF d found(1)] found(2) wf_renumber[OF wf1 Some] by simp
  qed
qed

lemma wf_filter_segments:
  "wf_db db \<Longrightarrow> wf_db (db\<lparr>trip_route_segments := filter P (trip_route_segments db)\<rparr>)"
  by (simp add: wf_db_def list_all_iff)

lemma wf_invalidate_adjacent: "wf_db db \<Longrightarrow> wf_db (invalidate_adjacent t stop p db)"
  by (auto simp: invalidate_adjacent_def delete_segments_of_stop_def delete_segment_between_def
      Let_def wf_filter_segments split: list.splits)

lemma stops_invalidate_adjacent [simp]:
  "trip_stops (invalidate_adjacent t stop p db) = trip_stops db"
  by (simp add: invalidate_adjacent_def delete_segments_of_stop_def delete_segment_between_def
      Let_def split: list.splits)

lemma unique_snoc:
  "unique_position_per_trip (rows @ [r]) =
     (unique_position_per_trip rows \<and> stop_key r \<notin> set (map stop_key rows))"
  by (auto simp: unique_position_per_trip_def)

lemma wf_seq_advance:
  "wf_db db \<Longrightarrow> wf_db (db\<lparr>trip_stops_id_seq := trip_stops_id_seq db + 1\<rparr>)"
  by (simp add: wf_db_def list_all_iff) force

lemma wf_ids_below:
  "wf_db db \<Longrightarrow> r \<in> set (trip_stops db) \<Longrightarrow> stop_id r < trip_stops_id_seq db"
  by (simp add: wf_db_def list_all_iff)

lemma wf_insert_row:
  assumes wf: "wf_db db" and id: "stop_id row = trip_stops_id_seq db"
    and u: "unique_position_per_trip (trip_stops db @ [row])" and p: "int4 (position row)"
  shows "wf_db (db\<lparr>trip_stops_id_seq := trip_stops_id_seq db + 1,
                   trip_stops := trip_stops db @ [row]\<rparr>)"
proof -
  have lt: "\<And>r. r \<in> set (trip_stops db) \<Longrightarrow> stop_id r < trip_stops_id_seq db"
    using wf by (rule wf_ids_below)
  have "stop_id row \<notin> stop_id ` set (trip_stops db)"
  proof
    assume "stop_id row \<in> stop_id ` set (trip_stops db)"
    then obtain r where "r \<in> set (trip_stops db)" "stop_id row = stop_id r" by (rule imageE)
    then show False using lt[of r] id by simp
  qed
  then have 1: "distinct (map stop_id (trip_stops db @ [row]))"
    using wf by (simp add: wf_db_def)
  have 3: "list_all (\<lambda>s. stop_id s < trip_stops_id_seq db + 1) (trip_stops db @ [row])"
    using lt id by (simp add: list_all_iff) force
  have 4: "list_all (\<lambda>g. from_stop_id g \<in> set (map stop_id (trip_stops db @ [row]))
                       \<and> to_stop_id g \<in> set (map stop_id (trip_stops db @ [row])))
             (trip_route_segments db)"
    using wf by (simp add: wf_db_def list_all_iff)
  have 5: "list_all (\<lambda>s. int4 (position s)) (trip_stops db @ [row])"
    using wf p by (simp add: wf_db_def)
  show ?thesis using 1 u 3 4 5 by (simp add: wf_db_def)
qed

text \<open>The two outcomes of the INSERT.\<close>

lemma varchar_Some: "varchar n v = Some w \<Longrightarrow> w = map_option (take n) v"
  by (auto simp: varchar_def split: option.splits if_splits)

lemma insert_trip_stop_cases:
  fixes t p e l n db
  defines "row \<equiv> \<lparr>stop_id = trip_stops_id_seq db, trip_id = t, position = p,
                   timeline_entry_id = e, waypoint_location = l,
                   waypoint_name = map_option (take 255) n\<rparr>"
  obtains (rejected) db2 where "insert_trip_stop t p e l n db = (None, db2)"
      "trip_stops db2 = trip_stops db" "trip_route_segments db2 = trip_route_segments db"
      "db2 = db \<or> db2 = db\<lparr>trip_stops_id_seq := trip_stops_id_seq db + 1\<rparr>"
  | (created) "insert_trip_stop t p e l n db =
        (Some row, db\<lparr>trip_stops_id_seq := trip_stops_id_seq db + 1,
                      trip_stops := trip_stops db @ [row]\<rparr>)"
      "int4 p" "varchar 255 n \<noteq> None" "stop_has_source row" "references_ok row db"
      "unique_position_per_trip (trip_stops db @ [row])" "int4 (trip_stops_id_seq db)"
proof (cases "int4 (trip_stops_id_seq db)")
  case False
  then show ?thesis
    by (intro rejected[of db]) (simp_all add: insert_trip_stop_def Let_def)
next
  case seq: True
  show ?thesis
  proof (cases "varchar 255 n")
    case None
    then show ?thesis using seq
      by (intro rejected[of "db\<lparr>trip_stops_id_seq := trip_stops_id_seq db + 1\<rparr>"])
         (simp_all add: insert_trip_stop_def Let_def)
  next
    case (Some stored)
    have st: "stored = map_option (take 255) n" using Some by (rule varchar_Some)
    show ?thesis
    proof (cases "int4 p \<and> stop_has_source row \<and> references_ok row db
                  \<and> unique_position_per_trip (trip_stops db @ [row])")
      case True
      then show ?thesis using seq Some
        by (intro created) (simp_all add: insert_trip_stop_def Let_def row_def st)
    next
      case False
      then show ?thesis using seq Some
        by (intro rejected[of "db\<lparr>trip_stops_id_seq := trip_stops_id_seq db + 1\<rparr>"])
           (auto simp: insert_trip_stop_def Let_def row_def st)
    qed
  qed
qed

lemma insert_trip_stop_wf:
  assumes "wf_db db"
  shows "wf_db (snd (insert_trip_stop t p e l n db))"
proof (cases rule: insert_trip_stop_cases[of t p e l n db])
  case (rejected db2)
  then show ?thesis using assms wf_seq_advance[OF assms] by auto
next
  case created
  then show ?thesis using wf_insert_row[OF assms _ created(6)] by simp
qed

lemma insert_from_body_wf:
  assumes "wf_db db" and "insert_from_body t p body db = Some (r, db2)"
  shows "wf_db db2"
proof -
  obtain e l n where "insert_trip_stop t p e l n db = (r, db2)"
    using assms(2) by (auto simp: insert_from_body_def split: if_splits)
  then have "db2 = snd (insert_trip_stop t p e l n db)" by simp
  then show ?thesis using insert_trip_stop_wf[OF assms(1)] by simp
qed

lemma determine_position_append:
  "body_position body = None \<Longrightarrow>
   determine_position t body db = Some (max_position t db + 1, db)"
  by (simp add: determine_position_def)

lemma determine_position_cases:
  obtains (raised) p where "body_position body = Some p" "shift_positions t p db = None"
      "determine_position t body db = None"
  | (append) "body_position body = None"
      "determine_position t body db = Some (max_position t db + 1, db)"
  | (shifted) p rows where "body_position body = Some p"
      "determine_position t body db = Some (p, db\<lparr>trip_stops := rows\<rparr>)"
      "rows = filter (\<lambda>s. \<not> (trip_id s = t \<and> p \<le> position s)) (trip_stops db)
              @ map (moved 1) (filter (\<lambda>s. trip_id s = t \<and> p \<le> position s) (trip_stops db))"
      "shift_positions t p db = Some (db\<lparr>trip_stops := rows\<rparr>)"
proof (cases "body_position body")
  case None
  then show ?thesis by (intro append) (simp_all add: determine_position_def)
next
  case (Some p)
  show ?thesis
  proof (cases rule: shift_positions_cases[of t p db])
    case raised
    then show ?thesis using Some by (intro that(1)[of p]) (simp_all add: determine_position_def)
  next
    case (shifted rows)
    then show ?thesis using Some by (intro that(3)[of p rows]) (simp_all add: determine_position_def)
  qed
qed

lemma wf_add_stop:
  assumes wf: "wf_db db"
  shows "wf_db (snd (add_stop t body db))"
proof (cases "determine_position t body db")
  case None
  then show ?thesis using wf by (simp add: add_stop_def)
next
  case (Some pd)
  obtain p db1 where pd: "pd = (p, db1)" by (cases pd)
  have wf1: "wf_db db1"
  proof (cases rule: determine_position_cases[of body t db])
    case (raised q)
    then show ?thesis using Some by simp
  next
    case append
    then show ?thesis using Some pd wf by simp
  next
    case (shifted q rows)
    then show ?thesis using Some pd wf_shift_positions[OF wf shifted(4)] by simp
  qed
  show ?thesis
  proof (cases "insert_from_body t p body db1")
    case None
    then show ?thesis using Some pd wf1 by (simp add: add_stop_def)
  next
    case (Some res)
    obtain r db2 where res: "res = (r, db2)" by (cases res)
    have wf2: "wf_db db2" using insert_from_body_wf[OF wf1] Some res by simp
    show ?thesis
      using \<open>determine_position t body db = Some pd\<close> pd Some res wf2
      by (cases r) (simp_all add: add_stop_def wf_invalidate_adjacent)
  qed
qed

lemma wf_run_ops: "wf_db db \<Longrightarrow> wf_db (run_ops t ops db)"
proof (induction ops arbitrary: db)
  case Nil
  then show ?case by simp
next
  case (Cons op ops)
  have "wf_db (apply_op t op db)"
    using Cons.prems by (cases op) (simp_all add: wf_add_stop wf_delete_stop)
  then show ?case using Cons.IH by simp
qed

section \<open>Trips that are scanned in position order\<close>

lemma fold_max_Max: "fold max ps (p::int) = Max (set (p # ps))"
  by (simp only: Max.set_eq_fold)



lemma position_le_max:
  assumes "r \<in> set (stops_of t db)"
  shows "position r \<le> max_position t db"
proof -
  obtain q qs where qs: "map position (stops_of t db) = q # qs"
    using assms by (cases "stops_of t db") auto
  have "position r \<in> set (q # qs)" using assms qs[symmetric] by simp
  then have "position r \<le> Max (set (q # qs))" by (intro Max_ge) simp_all
  then show ?thesis by (simp add: max_position_def qs fold_max_Max)
qed

lemma free_append: "(t, max_position t db + 1) \<notin> set (map stop_key (trip_stops db))"
proof
  assume "(t, max_position t db + 1) \<in> set (map stop_key (trip_stops db))"
  then obtain r where "r \<in> set (trip_stops db)" "stop_key r = (t, max_position t db + 1)"
    unfolding set_map by (metis imageE)
  then have "r \<in> set (stops_of t db)" "position r = max_position t db + 1"
    by (simp_all add: stops_of_def stop_key_def)
  then show False using position_le_max[of r t db] by simp
qed












section \<open>POST stops: the outcome of a request\<close>

lemma new_stop_fields [simp]:
  "stop_id (new_stop i t p body) = i" "trip_id (new_stop i t p body) = t"
  "position (new_stop i t p body) = p"
  by (simp_all add: new_stop_def)

lemma new_stop_has_source:
  "entry_supplied body \<or> coordinate_supplied body \<Longrightarrow> stop_has_source (new_stop i t p body)"
  by (auto simp: stop_has_source_def new_stop_def entry_supplied_def truthy_def
      split: option.splits)

lemma new_stop_entry:
  "entry_supplied body \<Longrightarrow>
     timeline_entry_id (new_stop i t p body) = body_timeline_entry_id body
     \<and> waypoint_location (new_stop i t p body) = None
     \<and> waypoint_name (new_stop i t p body) = None"
  by (simp add: new_stop_def)

text \<open>The handler's test \<open>if (body.timeline_entry_id)\<close> holds when the reference is supplied.\<close>

lemma entry_supplied_truthy: "truthy (body_timeline_entry_id body) = entry_supplied body"
  by (simp add: truthy_def entry_supplied_def)

text \<open>The row the handler builds from the body, for the position it has determined.\<close>

lemma insert_from_body_row:
  obtains (invalid) "\<not> entry_supplied body" "\<not> coordinate_supplied body"
      "insert_from_body t p body db = None"
  | (built) e l n where "entry_supplied body \<or> coordinate_supplied body"
      "insert_from_body t p body db = Some (insert_trip_stop t p e l n db)"
      "\<lparr>stop_id = trip_stops_id_seq db, trip_id = t, position = p, timeline_entry_id = e,
        waypoint_location = l, waypoint_name = map_option (take 255) n\<rparr>
         = new_stop (trip_stops_id_seq db) t p body"
proof (cases "entry_supplied body")
  case True
  show ?thesis
    by (rule built[of "body_timeline_entry_id body" None None])
       (use True in \<open>simp_all add: insert_from_body_def entry_supplied_truthy new_stop_def\<close>)
next
  case False
  show ?thesis
  proof (cases "coordinate_supplied body")
    case True
    show ?thesis
      by (rule built[of None "Some (the (body_lng body), the (body_lat body))"
            "name_or_null (body_name body)"])
         (use True False in \<open>simp_all add: insert_from_body_def entry_supplied_truthy
            coordinate_supplied_def new_stop_def\<close>)
  next
    case nc: False
    show ?thesis
      by (rule invalid)
         (use False nc in \<open>auto simp: insert_from_body_def entry_supplied_truthy coordinate_supplied_def\<close>)
  qed
qed

lemma insert_from_body_cases:
  obtains (invalid) "\<not> entry_supplied body" "\<not> coordinate_supplied body"
      "insert_from_body t p body db = None"
  | (rejected) db2 where "entry_supplied body \<or> coordinate_supplied body"
      "insert_from_body t p body db = Some (None, db2)"
      "trip_stops db2 = trip_stops db" "trip_route_segments db2 = trip_route_segments db"
  | (created) "entry_supplied body \<or> coordinate_supplied body"
      "insert_from_body t p body db =
         Some (Some (new_stop (trip_stops_id_seq db) t p body),
               db\<lparr>trip_stops_id_seq := trip_stops_id_seq db + 1,
                  trip_stops := trip_stops db @ [new_stop (trip_stops_id_seq db) t p body]\<rparr>)"
      "int4 p"
proof (cases rule: insert_from_body_row[of body t p db])
  case invalid
  then show ?thesis by (rule that(1))
next
  case (built e l n)
  show ?thesis
  proof (cases rule: insert_trip_stop_cases[of t p e l n db])
    case (rejected db2)
    show ?thesis
      by (rule that(2)[of db2]) (simp_all add: built rejected)
  next
    case created
    show ?thesis
      by (rule that(3)) (simp_all add: built(1,2) created(1,2) built(3)[symmetric])
  qed
qed

text \<open>The three outcomes of the handler once the position is determined.\<close>

lemma add_stop_cases:
  obtains (raised) "determine_position t body db = None"
      "add_stop t body db = (Inl DatabaseError, db)"
  | (invalid) p db1 where "determine_position t body db = Some (p, db1)"
      "\<not> entry_supplied body" "\<not> coordinate_supplied body"
      "add_stop t body db = (Inl ValidationError, db1)"
  | (rejected) p db1 db2 where "determine_position t body db = Some (p, db1)"
      "entry_supplied body \<or> coordinate_supplied body"
      "add_stop t body db = (Inl DatabaseError, db2)"
      "trip_stops db2 = trip_stops db1" "trip_route_segments db2 = trip_route_segments db1"
  | (created) p db1 where "determine_position t body db = Some (p, db1)"
      "entry_supplied body \<or> coordinate_supplied body"
      "add_stop t body db =
         (Inr (new_stop (trip_stops_id_seq db1) t p body),
          invalidate_adjacent t (new_stop (trip_stops_id_seq db1) t p body) p
            (db1\<lparr>trip_stops_id_seq := trip_stops_id_seq db1 + 1,
                 trip_stops := trip_stops db1 @ [new_stop (trip_stops_id_seq db1) t p body]\<rparr>))"
      "int4 p"
proof (cases "determine_position t body db")
  case None
  show ?thesis by (rule that(1)) (simp_all add: None add_stop_def)
next
  case (Some pd)
  obtain p db1 where pd: "pd = (p, db1)" by (cases pd)
  note dp = Some[unfolded pd]
  show ?thesis
  proof (cases rule: insert_from_body_cases[of body t p db1])
    case invalid
    show ?thesis by (rule that(2)[OF dp]) (simp_all add: invalid add_stop_def dp)
  next
    case (rejected db2)
    show ?thesis by (rule that(3)[OF dp, of db2]) (simp_all add: rejected add_stop_def dp)
  next
    case created
    show ?thesis by (rule that(4)[OF dp]) (simp_all add: created add_stop_def dp)
  qed
qed

section \<open>POST stops: appending\<close>

lemma at_most_one_key:
  assumes "distinct (map f xs)"
  shows "length (filter (\<lambda>x. f x = k) xs) \<le> 1"
  using assms
proof (induction xs)
  case Nil then show ?case by simp
next
  case (Cons x xs)
  show ?case
  proof (cases "f x = k")
    case True
    then have "filter (\<lambda>x. f x = k) xs = []"
      using Cons.prems by (auto simp: filter_empty_conv image_iff)
    then show ?thesis using True by simp
  next
    case False
    then show ?thesis using Cons by simp
  qed
qed

lemma invalidate_adjacent_no_pair:
  assumes "length (neighbors t p db) \<noteq> 2"
  shows "invalidate_adjacent t stop p db = delete_segments_of_stop t (stop_id stop) db"
proof -
  have "neighbors t p (delete_segments_of_stop t (stop_id stop) db) = neighbors t p db"
    by (simp add: neighbors_def delete_segments_of_stop_def)
  then show ?thesis using assms
    by (auto simp: invalidate_adjacent_def Let_def split: list.splits)
qed

lemma wf_segment_refs:
  assumes "wf_db db" and "g \<in> set (trip_route_segments db)"
  shows "from_stop_id g \<in> set (map stop_id (trip_stops db))"
    and "to_stop_id g \<in> set (map stop_id (trip_stops db))"
  using assms by (simp_all add: wf_db_def list_all_iff)

lemma fresh_id_no_segments:
  assumes "wf_db db"
  shows "delete_segments_of_stop t (trip_stops_id_seq db) db = db"
proof -
  have "\<And>g. g \<in> set (trip_route_segments db) \<Longrightarrow>
          from_stop_id g \<noteq> trip_stops_id_seq db \<and> to_stop_id g \<noteq> trip_stops_id_seq db"
  proof -
    fix g assume g: "g \<in> set (trip_route_segments db)"
    obtain a b where "a \<in> set (trip_stops db)" "from_stop_id g = stop_id a"
      "b \<in> set (trip_stops db)" "to_stop_id g = stop_id b"
      using wf_segment_refs[OF assms g] unfolding set_map by (metis imageE)
    then show "from_stop_id g \<noteq> trip_stops_id_seq db \<and> to_stop_id g \<noteq> trip_stops_id_seq db"
      using wf_ids_below[OF assms, of a] wf_ids_below[OF assms, of b] by simp
  qed
  then have "filter (\<lambda>g. \<not> (seg_trip_id g = t \<and> (from_stop_id g = trip_stops_id_seq db
                \<or> to_stop_id g = trip_stops_id_seq db))) (trip_route_segments db)
             = trip_route_segments db"
    by (intro filter_True) auto
  then show ?thesis by (simp add: delete_segments_of_stop_def)
qed

lemma neighbors_of_last:
  assumes u: "unique_position_per_trip (trip_stops db)"
  shows "length (filter (\<lambda>s. trip_id s = t \<and> (position s = max_position t db + 1 - 1
                    \<or> position s = max_position t db + 1 + 1)) (trip_stops db)) \<le> 1"
proof -
  have "filter (\<lambda>s. trip_id s = t \<and> (position s = max_position t db + 1 - 1
                    \<or> position s = max_position t db + 1 + 1)) (trip_stops db)
        = filter (\<lambda>s. stop_key s = (t, max_position t db)) (trip_stops db)"
  proof (rule filter_cong[OF refl])
    fix s assume "s \<in> set (trip_stops db)"
    then have "trip_id s = t \<Longrightarrow> position s \<le> max_position t db"
      using position_le_max[of s t db] by (simp add: stops_of_def)
    then show "(trip_id s = t \<and> (position s = max_position t db + 1 - 1
                    \<or> position s = max_position t db + 1 + 1)) = (stop_key s = (t, max_position t db))"
      by (auto simp: stop_key_def)
  qed
  then show ?thesis
    using at_most_one_key[of stop_key "trip_stops db" "(t, max_position t db)"] u
    by (simp add: unique_position_per_trip_def)
qed

lemma segments_seq_update [simp]:
  "trip_route_segments (delete_segments_of_stop t i db) =
     filter (\<lambda>g. \<not> (seg_trip_id g = t \<and> (from_stop_id g = i \<or> to_stop_id g = i)))
       (trip_route_segments db)"
  by (simp add: delete_segments_of_stop_def)

lemma invalidate_after_append:
  assumes wf: "wf_db db" and row: "stop_id row = trip_stops_id_seq db" "position row = max_position t db + 1"
  shows "trip_route_segments
           (invalidate_adjacent t row (max_position t db + 1)
              (db\<lparr>trip_stops_id_seq := trip_stops_id_seq db + 1,
                  trip_stops := trip_stops db @ [row]\<rparr>))
         = trip_route_segments db"
proof -
  let ?db2 = "db\<lparr>trip_stops_id_seq := trip_stops_id_seq db + 1, trip_stops := trip_stops db @ [row]\<rparr>"
  have u: "unique_position_per_trip (trip_stops db)" using wf by (simp add: wf_db_def)
  have "neighbors t (max_position t db + 1) ?db2
        = filter (\<lambda>s. trip_id s = t \<and> (position s = max_position t db + 1 - 1
                    \<or> position s = max_position t db + 1 + 1)) (trip_stops db)"
    using row(2) by (simp add: neighbors_def)
  then have "length (neighbors t (max_position t db + 1) ?db2) \<le> 1"
    using neighbors_of_last[OF u, of t] by simp
  then have "invalidate_adjacent t row (max_position t db + 1) ?db2
             = delete_segments_of_stop t (stop_id row) ?db2"
    by (intro invalidate_adjacent_no_pair) simp
  moreover have "trip_route_segments (delete_segments_of_stop t (trip_stops_id_seq db) ?db2)
                 = trip_route_segments (delete_segments_of_stop t (trip_stops_id_seq db) db)"
    by simp
  ultimately show ?thesis using fresh_id_no_segments[OF wf, of t] row(1) by simp
qed

lemma max_position_Max:
  "max_position t db =
     (if stops_of t db = [] then - 1 else Max (set (positions_of t db)))"
  by (cases "stops_of t db") (simp_all add: max_position_def positions_of_def fold_max_Max)

lemma same_result: "x = Some (a, b) \<Longrightarrow> x = Some (c, d) \<Longrightarrow> a = c \<and> b = d"
  by simp

text \<open>The three outcomes of an insert without a position.\<close>

lemma add_stop_append:
  obtains (explicit) p where "body_position body = Some p"
  | (invalid) "\<not> entry_supplied body" "\<not> coordinate_supplied body"
      "add_stop t body db = (Inl ValidationError, db)"
  | (rejected) db2 where "entry_supplied body \<or> coordinate_supplied body"
      "add_stop t body db = (Inl DatabaseError, db2)"
      "trip_stops db2 = trip_stops db" "trip_route_segments db2 = trip_route_segments db"
  | (created) "entry_supplied body \<or> coordinate_supplied body"
      "add_stop t body db =
         (Inr (new_stop (trip_stops_id_seq db) t (max_position t db + 1) body),
          invalidate_adjacent t (new_stop (trip_stops_id_seq db) t (max_position t db + 1) body)
            (max_position t db + 1)
            (db\<lparr>trip_stops_id_seq := trip_stops_id_seq db + 1,
                trip_stops := trip_stops db @
                  [new_stop (trip_stops_id_seq db) t (max_position t db + 1) body]\<rparr>))"
proof (cases "body_position body")
  case None
  note dp = determine_position_append[OF None, of t db]
  show ?thesis
  proof (cases rule: add_stop_cases[where t = t and body = body and db = db])
    case raised
    then show ?thesis using dp by simp
  next
    case (invalid p db1)
    note pd = same_result[OF invalid(1) dp]
    show ?thesis by (rule that(2)) (use invalid(2-) in \<open>simp_all add: pd\<close>)
  next
    case (rejected p db1 db2)
    note pd = same_result[OF rejected(1) dp]
    show ?thesis by (rule that(3)[of db2]) (use rejected(2-) in \<open>simp_all add: pd\<close>)
  next
    case (created p db1)
    note pd = same_result[OF created(1) dp]
    show ?thesis by (rule that(4)) (use created(2-) in \<open>simp_all add: pd\<close>)
  qed
next
  case (Some p)
  then show ?thesis by (rule that(1))
qed

lemmas handler_defs =
  add_stop_def determine_position_def shift_positions_def update_where_def moved_def int4_def
  varchar_def insert_from_body_def insert_trip_stop_def invalidate_adjacent_def
  delete_segments_of_stop_def delete_segment_between_def neighbors_def max_position_def
  stops_of_def stop_has_source_def references_ok_def unique_position_per_trip_def stop_key_def
  truthy_def name_or_null_def delete_stop_def delete_trip_stop_def renumber_def Let_def

lemmas example_defs =
  example_db_def waypoint_stop_def cached_segment_def waypoint_body_def empty_body_def
  both_body_def stacked_db_def staged_db_def

lemma wf_example_db: "wf_db example_db"
  by (simp add: wf_db_def example_db_def waypoint_stop_def cached_segment_def
      unique_position_per_trip_def stop_key_def int4_def)

lemma stops_of_example_db:
  "stops_of 1 example_db = [waypoint_stop 1 1 0, waypoint_stop 2 1 1, waypoint_stop 3 1 2]"
  by (simp add: stops_of_def example_db_def waypoint_stop_def)

text \<open>
  C10. An insert without an explicit position never changes the table of cached segments,
  whatever its outcome. When it creates a stop, the stop is stored behind the existing
  rows with position max + 1 of the trip's positions, or 0 for a trip without stops.
\<close>

theorem append_stop_keeps_segments:
  assumes "wf_db db" and "body_position body = None"
  shows "trip_route_segments (snd (add_stop tripId body db)) = trip_route_segments db
       \<and> (\<forall>stop. fst (add_stop tripId body db) = Inr stop \<longrightarrow>
             position stop =
               (if stops_of tripId db = [] then 0 else Max (set (positions_of tripId db)) + 1)
             \<and> trip_stops (snd (add_stop tripId body db)) = trip_stops db @ [stop])"
proof (cases rule: add_stop_append[where body = body and t = tripId and db = db])
  case (explicit p)
  then show ?thesis using assms(2) by simp
next
  case invalid
  then show ?thesis by simp
next
  case (rejected db2)
  then show ?thesis by simp
next
  case created
  let ?row = "new_stop (trip_stops_id_seq db) tripId (max_position tripId db + 1) body"
  have "trip_route_segments (snd (add_stop tripId body db)) = trip_route_segments db"
    unfolding created(2) snd_conv by (rule invalidate_after_append[OF assms(1)]) simp_all
  moreover have "position ?row
        = (if stops_of tripId db = [] then 0 else Max (set (positions_of tripId db)) + 1)"
    by (simp add: max_position_Max)
  moreover have "trip_stops (snd (add_stop tripId body db)) = trip_stops db @ [?row]"
    unfolding created(2) snd_conv by simp
  moreover have "fst (add_stop tripId body db) = Inr ?row" unfolding created(2) by simp
  ultimately show ?thesis by simp
qed

theorem append_stop_keeps_segments_witness:
  "wf_db example_db \<and> body_position (waypoint_body None) = None
   \<and> trip_route_segments (snd (add_stop 1 (waypoint_body None) example_db))
       = [cached_segment 1 1 1 2, cached_segment 2 1 2 3]
   \<and> (\<exists>stop. fst (add_stop 1 (waypoint_body None) example_db) = Inr stop \<and> position stop = 3
         \<and> trip_stops (snd (add_stop 1 (waypoint_body None) example_db))
             = trip_stops example_db @ [stop])"
proof -
  have b: "body_position (waypoint_body None) = None" by (simp add: waypoint_body_def)
  note t = append_stop_keeps_segments[OF wf_example_db b, of 1]
  have m: "Max (set (positions_of 1 example_db)) + 1 = 3"
    by (simp add: positions_of_def stops_of_example_db waypoint_stop_def)
  have ne: "stops_of 1 example_db \<noteq> []" by (simp add: stops_of_example_db)
  have s: "fst (add_stop 1 (waypoint_body None) example_db)
           = Inr \<lparr>stop_id = 5, trip_id = 1, position = 3, timeline_entry_id = None,
                  waypoint_location = Some (11, 48), waypoint_name = Some ''D''\<rparr>"
    by (simp add: handler_defs example_defs)
  then have "position \<lparr>stop_id = 5, trip_id = 1, position = 3, timeline_entry_id = None,
                  waypoint_location = Some (11, 48), waypoint_name = Some ''D''\<rparr> = 3
             \<and> trip_stops (snd (add_stop 1 (waypoint_body None) example_db))
             = trip_stops example_db @ [\<lparr>stop_id = 5, trip_id = 1, position = 3, timeline_entry_id = None,
                  waypoint_location = Some (11, 48), waypoint_name = Some ''D''\<rparr>]"
    using t m ne by simp
  moreover have "trip_route_segments (snd (add_stop 1 (waypoint_body None) example_db))
       = [cached_segment 1 1 1 2, cached_segment 2 1 2 3]"
    using t by (simp add: example_db_def)
  ultimately show ?thesis using wf_example_db b s by blast
qed

section \<open>POST stops: the location source\<close>

lemma determine_position_ids:
  assumes "determine_position t body db = Some (p, db1)"
  shows "set (map stop_id (trip_stops db1)) = set (map stop_id (trip_stops db))"
    and "length (trip_stops db1) = length (trip_stops db)"
proof -
  have "set (map stop_id (trip_stops db1)) = set (map stop_id (trip_stops db))
        \<and> length (trip_stops db1) = length (trip_stops db)"
  proof (cases rule: determine_position_cases[of body t db])
    case (raised q)
    then show ?thesis using assms by simp
  next
    case append
    then show ?thesis using assms by simp
  next
    case (shifted q rows)
    have "db1 = db\<lparr>trip_stops := rows\<rparr>" using shifted(2) assms by simp
    then show ?thesis
      unfolding shifted(3)
      using partition_ids(1,2)[of "moved 1" "\<lambda>s. trip_id s = t \<and> q \<le> position s" "trip_stops db"]
      by simp
  qed
  then show "set (map stop_id (trip_stops db1)) = set (map stop_id (trip_stops db))"
    and "length (trip_stops db1) = length (trip_stops db)" by simp_all
qed

lemma add_stop_raised:
  "determine_position t body db = None \<Longrightarrow> add_stop t body db = (Inl DatabaseError, db)"
  by (simp add: add_stop_def)

text \<open>
  C5, as the code has it. A request with neither source creates no stop and fails: with
  ValidationError, or with the database's error, nothing changed, when a statement that
  runs before the sources are tested is rejected. For a trip id within the INTEGER range
  that statement can only be the UPDATE that makes room at an explicit position: a
  request without a position is answered with ValidationError, nothing changed. A request
  with a timeline-entry reference is never answered with ValidationError, whether or not
  it carries a coordinate as well: the reference takes precedence, and a stop that is
  created has the entry as its only source. Every stop that is created comes from a
  request with at least one source and has exactly one source itself.
\<close>

theorem stop_source_validation:
  "(\<not> entry_supplied body \<and> \<not> coordinate_supplied body \<longrightarrow>
      (fst (add_stop tripId body db) = Inl ValidationError
       \<or> add_stop tripId body db = (Inl DatabaseError, db))
      \<and> (body_position body = None \<and> int4 tripId \<longrightarrow>
            add_stop tripId body db = (Inl ValidationError, db))
      \<and> set (map stop_id (trip_stops (snd (add_stop tripId body db))))
          = set (map stop_id (trip_stops db))
      \<and> length (trip_stops (snd (add_stop tripId body db))) = length (trip_stops db))
   \<and> (entry_supplied body \<longrightarrow>
        fst (add_stop tripId body db) \<noteq> Inl ValidationError
        \<and> (\<forall>stop. fst (add_stop tripId body db) = Inr stop \<longrightarrow>
              timeline_entry_id stop = body_timeline_entry_id body
              \<and> waypoint_location stop = None \<and> waypoint_name stop = None))
   \<and> (\<forall>stop. fst (add_stop tripId body db) = Inr stop \<longrightarrow>
        (entry_supplied body \<or> coordinate_supplied body) \<and> stop_has_source stop)"
proof (cases rule: add_stop_cases[where t = tripId and body = body and db = db])
  case raised
  have "body_position body \<noteq> None"
    using raised(1) by (auto simp: determine_position_def split: option.splits)
  then show ?thesis using raised(2) by simp
next
  case (invalid p db1)
  have "db1 = db" if "body_position body = None"
    using invalid(1) that by (simp add: determine_position_def)
  then show ?thesis using invalid determine_position_ids[OF invalid(1)] by auto
next
  case (rejected p db1 db2)
  then show ?thesis by auto
next
  case (created p db1)
  let ?row = "new_stop (trip_stops_id_seq db1) tripId p body"
  have f: "fst (add_stop tripId body db) = Inr ?row" unfolding created(3) by simp
  have "stop_has_source ?row" using created(2) by (rule new_stop_has_source)
  then show ?thesis using created(2) f new_stop_entry[of body "trip_stops_id_seq db1" tripId p]
    by auto
qed

theorem stop_source_validation_witness:
  "\<not> entry_supplied (empty_body None) \<and> \<not> coordinate_supplied (empty_body None)
   \<and> body_position (empty_body None) = None \<and> int4 1
   \<and> add_stop 1 (empty_body None) example_db = (Inl ValidationError, example_db)
   \<and> \<not> entry_supplied (empty_body (Some 1)) \<and> \<not> coordinate_supplied (empty_body (Some 1))
   \<and> add_stop 1 (empty_body (Some 1)) example_db = (Inl DatabaseError, example_db)
   \<and> entry_supplied both_body \<and> coordinate_supplied both_body
   \<and> (\<exists>stop. fst (add_stop 1 both_body example_db) = Inr stop
         \<and> timeline_entry_id stop = Some 7 \<and> waypoint_location stop = None
         \<and> stop_has_source stop)"
proof -
  have e: "\<not> entry_supplied (empty_body p) \<and> \<not> coordinate_supplied (empty_body p)" for p
    by (simp add: entry_supplied_def coordinate_supplied_def truthy_def empty_body_def)
  have b: "entry_supplied both_body \<and> coordinate_supplied both_body"
    by (simp add: entry_supplied_def coordinate_supplied_def truthy_def both_body_def)
  note t1 = stop_source_validation[of "empty_body None" 1 example_db]
  note t2 = stop_source_validation[of both_body 1 example_db]
  note t3 = stop_source_validation[of "empty_body (Some 1)" 1 example_db]
  have n: "body_position (empty_body None) = None \<and> int4 1"
    by (simp add: empty_body_def int4_def)
  have r1: "add_stop 1 (empty_body None) example_db = (Inl ValidationError, example_db)"
    using t1 e[of None] n by blast
  have "fst (add_stop 1 (empty_body (Some 1)) example_db) \<noteq> Inl ValidationError"
    by (simp add: handler_defs example_defs)
  then have r3: "add_stop 1 (empty_body (Some 1)) example_db = (Inl DatabaseError, example_db)"
    using t3 e[of "Some 1"] by blast
  have s: "fst (add_stop 1 both_body example_db)
           = Inr \<lparr>stop_id = 5, trip_id = 1, position = 3, timeline_entry_id = Some 7,
                  waypoint_location = None, waypoint_name = None\<rparr>"
    by (simp add: handler_defs example_defs)
  then have "stop_has_source \<lparr>stop_id = 5, trip_id = 1, position = 3, timeline_entry_id = Some 7,
                  waypoint_location = None, waypoint_name = None\<rparr>"
    using t2 by blast
  then show ?thesis using e b n r1 r3 s by auto
qed

theorem both_sources_counterexample:
  "entry_supplied both_body \<and> coordinate_supplied both_body
   \<and> add_stop 1 both_body example_db =
        (Inr \<lparr>stop_id = 5, trip_id = 1, position = 3, timeline_entry_id = Some 7,
              waypoint_location = None, waypoint_name = None\<rparr>,
         example_db\<lparr>trip_stops_id_seq := 6,
                    trip_stops := trip_stops example_db @
                      [\<lparr>stop_id = 5, trip_id = 1, position = 3, timeline_entry_id = Some 7,
                        waypoint_location = None, waypoint_name = None\<rparr>]\<rparr>)"
  by (simp add: handler_defs entry_supplied_def coordinate_supplied_def example_defs)

section \<open>Contiguity under appending inserts and deletes\<close>

lemma stops_of_cong: "trip_stops a = trip_stops b \<Longrightarrow> stops_of t a = stops_of t b"
  by (simp add: stops_of_def)






section \<open>The positions of a trip\<close>




section \<open>The shifting UPDATE on a trip scanned in position order\<close>

text \<open>
  On a trip whose rows are scanned in position order, the UPDATE that makes room at a
  position with two or more stops at or behind it visits the stop at that position first
  and moves it onto the position of the next stop, which is still in place: the statement
  is rejected and the request ends with the database's error, nothing changed.
\<close>

lemma insert_before_end_rejected:
  assumes o: "in_order t db" and ex: "body_position body = Some p"
    and p: "0 \<le> p" "p + 2 \<le> int (length (stops_of t db))"
  shows "add_stop t body db = (Inl DatabaseError, db)"
proof -
  let ?xs = "stops_of t db"
  let ?P = "\<lambda>s. trip_id s = t \<and> p \<le> position s"
  have ps: "map position ?xs = map int [0 ..< length ?xs]"
    using o by (simp add: in_order_def positions_of_def)
  have n: "nat p < length ?xs" "Suc (nat p) < length ?xs" using p by simp_all
  have pos: "position (?xs ! k) = int k" if "k < length ?xs" for k
    using arg_cong[OF ps, of "\<lambda>l. l ! k"] that by simp
  have lo: "a \<in> set (take (nat p) ?xs) \<Longrightarrow> position a < p" for a
  proof -
    assume "a \<in> set (take (nat p) ?xs)"
    then obtain k where "k < nat p" "a = ?xs ! k" using n(1) by (auto simp: in_set_conv_nth)
    then show "position a < p" using pos[of k] n(1) by simp
  qed
  have hi: "a \<in> set (drop (nat p) ?xs) \<Longrightarrow> p \<le> position a" for a
  proof -
    assume "a \<in> set (drop (nat p) ?xs)"
    then obtain k where "k < length ?xs - nat p" "a = ?xs ! (nat p + k)"
      by (auto simp: in_set_conv_nth)
    then show "p \<le> position a" using pos[of "nat p + k"] p(1) by simp
  qed
  have "filter ?P (trip_stops db) = filter (\<lambda>s. p \<le> position s) ?xs"
    unfolding stops_of_def filter_filter by (rule filter_cong) auto
  also have "\<dots> = filter (\<lambda>s. p \<le> position s) (take (nat p) ?xs)
                   @ filter (\<lambda>s. p \<le> position s) (drop (nat p) ?xs)"
    unfolding filter_append[symmetric] append_take_drop_id ..
  also have "filter (\<lambda>s. p \<le> position s) (take (nat p) ?xs) = []"
    unfolding filter_empty_conv using lo by force
  also have "filter (\<lambda>s. p \<le> position s) (drop (nat p) ?xs) = drop (nat p) ?xs"
    unfolding filter_id_conv using hi by blast
  also have "drop (nat p) ?xs = ?xs ! nat p # ?xs ! Suc (nat p) # drop (Suc (Suc (nat p))) ?xs"
    using n by (simp add: Cons_nth_drop_Suc)
  finally have pending: "filter ?P (trip_stops db)
                 = ?xs ! nat p # ?xs ! Suc (nat p) # drop (Suc (Suc (nat p))) ?xs"
    by simp
  have tr: "trip_id (?xs ! k) = t" if "k < length ?xs" for k
    using in_stops_of[of "?xs ! k" t db] that by simp
  have "stop_key (moved 1 (?xs ! nat p)) = stop_key (?xs ! Suc (nat p))"
    using pos[of "nat p"] pos[of "Suc (nat p)"] tr[of "nat p"] tr[of "Suc (nat p)"] n p(1)
    by (simp add: moved_key stop_key_def)
  then have "update_where ?P (moved 1) (trip_stops db) = None"
    unfolding update_where_def pending by simp
  then have "shift_positions t p db = None" by (simp add: shift_positions_def)
  then have "determine_position t body db = None" using ex by (simp add: determine_position_def)
  then show ?thesis by (rule add_stop_raised)
qed

section \<open>POST stops: inserting between two stops\<close>

text \<open>
  C4. In \<open>example_db\<close> trip 1 has the stops A, B, C (ids 1, 2, 3) at positions 0, 1, 2,
  appended in this order, and the cached segments A\<rightarrow>B and B\<rightarrow>C. The request to insert a
  waypoint D at position 1 is not carried out: the UPDATE that makes room moves B to
  position 2 while C still has it, the database rejects the statement, and the request
  ends with that error. No stop is created, no position changes, and both cached
  segments, A\<rightarrow>B among them, stay.
\<close>

theorem insert_between_rejected:
  "stops_of 1 example_db = [waypoint_stop 1 1 0, waypoint_stop 2 1 1, waypoint_stop 3 1 2]
   \<and> segments_of 1 example_db = [cached_segment 1 1 1 2, cached_segment 2 1 2 3]
   \<and> shift_positions 1 1 example_db = None
   \<and> add_stop 1 (waypoint_body (Some 1)) example_db = (Inl DatabaseError, example_db)"
  by (simp add: handler_defs segments_of_def example_defs)

text \<open>
  Where the UPDATE is accepted the handler does what the claim says. In \<open>stacked_db\<close> the
  rows of trip 3 are scanned from the last position to the first; with the segments 7\<rightarrow>6
  and 6\<rightarrow>5 cached, the insert at position 1, between the stops 7 and 6, gives the order 7,
  8, 6, 5 and removes the segment 7\<rightarrow>6 only.
\<close>

lemma insert_between_accepted_example:
  "fst (add_stop 3 (waypoint_body (Some 1))
         (stacked_db\<lparr>trip_route_segments := [cached_segment 1 3 7 6, cached_segment 2 3 6 5]\<rparr>))
     = Inr \<lparr>stop_id = 8, trip_id = 3, position = 1, timeline_entry_id = None,
            waypoint_location = Some (11, 48), waypoint_name = Some ''D''\<rparr>
   \<and> map (\<lambda>s. (stop_id s, position s))
         (stops_of 3 (snd (add_stop 3 (waypoint_body (Some 1))
            (stacked_db\<lparr>trip_route_segments := [cached_segment 1 3 7 6, cached_segment 2 3 6 5]\<rparr>))))
       = [(7, 0), (5, 3), (6, 2), (8, 1)]
   \<and> trip_route_segments (snd (add_stop 3 (waypoint_body (Some 1))
         (stacked_db\<lparr>trip_route_segments := [cached_segment 1 3 7 6, cached_segment 2 3 6 5]\<rparr>)))
       = [cached_segment 2 3 6 5]"
  by (simp add: handler_defs example_defs)

section \<open>DELETE /api/trips/:id/stops/:stopId\<close>

text \<open>
  A stop id that does not belong to the trip is answered with NotFoundError and nothing
  changes (\<open>delete_stop_missing\<close>). On a trip scanned in position order the stop is
  removed and the stops behind it move down by one (\<open>delete_stop_in_order\<close>). Whatever the
  renumbering does, the DELETE has removed the stop and the segments that have it as an
  endpoint, and no other segment.
\<close>

lemma delete_stop_segments:
  assumes "distinct (map stop_id (trip_stops db))" and "s \<in> set (stops_of tripId db)"
  shows "trip_route_segments (snd (delete_stop tripId (stop_id s) db))
           = filter (\<lambda>g. from_stop_id g \<noteq> stop_id s \<and> to_stop_id g \<noteq> stop_id s)
               (trip_route_segments db)"
    and "stop_id s \<notin> set (map stop_id (trip_stops (snd (delete_stop tripId (stop_id s) db))))"
proof -
  let ?db1 = "delete_trip_stop (stop_id s) db"
  have seg1: "trip_route_segments ?db1
         = filter (\<lambda>g. from_stop_id g \<noteq> stop_id s \<and> to_stop_id g \<noteq> stop_id s) (trip_route_segments db)"
    and id1: "stop_id s \<notin> set (map stop_id (trip_stops ?db1))"
    by (auto simp: delete_trip_stop_def)
  have "trip_route_segments (snd (delete_stop tripId (stop_id s) db)) = trip_route_segments ?db1
        \<and> set (map stop_id (trip_stops (snd (delete_stop tripId (stop_id s) db))))
            = set (map stop_id (trip_stops ?db1))"
  proof (cases rule: renumber_cases[of tripId "position s" ?db1])
    case raised
    then show ?thesis by (simp add: delete_stop_found[OF assms])
  next
    case (renumbered rows)
    have "set (map stop_id rows) = set (map stop_id (trip_stops ?db1))"
      unfolding renumbered(2) by (rule partition_ids(1)) simp
    then show ?thesis using renumbered(1) by (simp add: delete_stop_found[OF assms])
  qed
  then show "trip_route_segments (snd (delete_stop tripId (stop_id s) db))
           = filter (\<lambda>g. from_stop_id g \<noteq> stop_id s \<and> to_stop_id g \<noteq> stop_id s)
               (trip_route_segments db)"
    and "stop_id s \<notin> set (map stop_id (trip_stops (snd (delete_stop tripId (stop_id s) db))))"
    using seg1 id1 by simp_all
qed

lemma stacked_db_reached:
  "run_ops 3 [Insert (waypoint_body None), Insert (waypoint_body (Some 0)),
              Insert (waypoint_body (Some 0))] example_db = stacked_db"
  by (simp add: handler_defs example_defs)

lemma wf_stacked_db: "wf_db stacked_db"
  using wf_run_ops[OF wf_example_db, of 3] unfolding stacked_db_reached[symmetric] .

text \<open>
  C6. In \<open>stacked_db\<close> trip 3 has the stops 7, 6, 5 at positions 0, 1, 2, and the rows are
  scanned in the order 5, 6, 7. The request to delete stop 7 removes the stop; the
  renumbering UPDATE then visits stop 5 first and moves it to position 1 while stop 6
  still has it, the database rejects the statement, and the request ends with that
  error. The two remaining stops keep the positions 2 and 1: position 0 is free.
\<close>

theorem delete_leaves_gap:
  "map (\<lambda>s. (stop_id s, position s)) (stops_of 3 stacked_db) = [(5, 2), (6, 1), (7, 0)]
   \<and> renumber 3 0 (delete_trip_stop 7 stacked_db) = None
   \<and> delete_stop 3 7 stacked_db
       = (Inl DatabaseError, stacked_db\<lparr>trip_stops := butlast (trip_stops stacked_db)\<rparr>)
   \<and> map (\<lambda>s. (stop_id s, position s)) (stops_of 3 (snd (delete_stop 3 7 stacked_db)))
       = [(5, 2), (6, 1)]"
  by (simp add: handler_defs example_defs)

section \<open>PUT reorder: the position loops\<close>

lemma relabel_ids [simp]:
  "map stop_id (relabel t f ids i rows) = map stop_id rows"
  "map trip_id (relabel t f ids i rows) = map trip_id rows"
  by (induction ids arbitrary: i rows) (simp_all add: o_def)

lemma position_loop_None:
  "position_loop t f ids i db = (None, db') \<Longrightarrow>
   db' = db\<lparr>trip_stops := relabel t f ids i (trip_stops db)\<rparr>"
proof (induction ids arbitrary: i db)
  case Nil then show ?case by simp
next
  case (Cons x xs)
  show ?case
  proof (cases "update_position t x (f i) db")
    case None then show ?thesis using Cons.prems by simp
  next
    case (Some db1)
    then have db1: "db1 = db\<lparr>trip_stops := map (set_position t x (f i)) (trip_stops db)\<rparr>"
      by (auto simp: update_position_def Let_def split: if_splits)
    have "position_loop t f xs (i + 1) db1 = (None, db')" using Cons.prems Some by simp
    then have "db' = db1\<lparr>trip_stops := relabel t f xs (i + 1) (trip_stops db1)\<rparr>"
      by (rule Cons.IH)
    then show ?thesis by (simp add: db1)
  qed
qed

lemma position_loop_frame:
  "trip_route_segments (snd (position_loop t f ids i db)) = trip_route_segments db
   \<and> trips (snd (position_loop t f ids i db)) = trips db
   \<and> timeline_entries (snd (position_loop t f ids i db)) = timeline_entries db
   \<and> trip_stops_id_seq (snd (position_loop t f ids i db)) = trip_stops_id_seq db
   \<and> trip_route_segments_id_seq (snd (position_loop t f ids i db)) = trip_route_segments_id_seq db"
proof (induction ids arbitrary: i db)
  case Nil then show ?case by simp
next
  case (Cons x xs)
  show ?case
  proof (cases "update_position t x (f i) db")
    case None then show ?thesis by simp
  next
    case (Some db1)
    then have "db1 = db\<lparr>trip_stops := map (set_position t x (f i)) (trip_stops db)\<rparr>"
      by (auto simp: update_position_def Let_def split: if_splits)
    then show ?thesis using Cons[of "i + 1" db1] Some by simp
  qed
qed

lemma position_loop_error:
  "fst (position_loop t f ids i db) = None \<or> fst (position_loop t f ids i db) = Some DatabaseError"
proof (induction ids arbitrary: i db)
  case Nil then show ?case by simp
next
  case (Cons x xs)
  then show ?case by (cases "update_position t x (f i) db") simp_all
qed

lemma position_loop_append:
  "position_loop t f (xs @ ys) i db =
     (case position_loop t f xs i db of
        (None, db1) \<Rightarrow> position_loop t f ys (i + int (length xs)) db1
      | (Some e, db1) \<Rightarrow> (Some e, db1))"
proof (induction xs arbitrary: i db)
  case Nil then show ?case by simp
next
  case (Cons x xs)
  show ?case
  proof (cases "update_position t x (f i) db")
    case None then show ?thesis by simp
  next
    case (Some db1)
    have "i + 1 + int (length xs) = i + int (length (x # xs))" by simp
    then show ?thesis using Cons[of "i + 1" db1] Some by (simp only: append_Cons position_loop.simps option.case)
  qed
qed

lemma idx_bounds: "x \<in> set ids \<Longrightarrow> 0 \<le> idx ids x \<and> idx ids x < int (length ids)"
  by (induction ids) auto

lemma idx_nonneg: "0 \<le> idx ids x"
  by (induction ids) auto

lemma nth_idx: "x \<in> set ids \<Longrightarrow> ids ! nat (idx ids x) = x"
proof (induction ids)
  case Nil then show ?case by simp
next
  case (Cons y ys)
  show ?case
  proof (cases "x = y")
    case True then show ?thesis by simp
  next
    case False
    then have "x \<in> set ys" using Cons.prems by simp
    then have "ys ! nat (idx ys x) = x" by (rule Cons.IH)
    moreover have "nat (1 + idx ys x) = Suc (nat (idx ys x))" using idx_nonneg[of ys x] by simp
    ultimately show ?thesis using False by simp
  qed
qed

lemma idx_inj: "x \<in> set ids \<Longrightarrow> y \<in> set ids \<Longrightarrow> idx ids x = idx ids y \<Longrightarrow> x = y"
  by (metis nth_idx)

lemma relabel_closed_form:
  assumes "distinct ids"
  shows "relabel t f ids i rows =
           map (\<lambda>r. if trip_id r = t \<and> stop_id r \<in> set ids
                     then r\<lparr>position := f (i + idx ids (stop_id r))\<rparr> else r) rows"
  using assms
proof (induction ids arbitrary: i rows)
  case Nil then show ?case by simp
next
  case (Cons x xs)
  have d: "distinct xs" and nx: "x \<notin> set xs" using Cons.prems by simp_all
  have "relabel t f (x # xs) i rows
        = map (\<lambda>r. if trip_id r = t \<and> stop_id r \<in> set xs
                     then r\<lparr>position := f (i + 1 + idx xs (stop_id r))\<rparr> else r)
            (map (set_position t x (f i)) rows)"
    using Cons.IH[OF d, of "i + 1" "map (set_position t x (f i)) rows"] by simp
  also have "\<dots> = map (\<lambda>r. if trip_id r = t \<and> stop_id r \<in> set (x # xs)
                     then r\<lparr>position := f (i + idx (x # xs) (stop_id r))\<rparr> else r) rows"
    unfolding map_map
  proof (rule map_cong[OF refl])
    fix r assume "r \<in> set rows"
    show "((\<lambda>r. if trip_id r = t \<and> stop_id r \<in> set xs
                     then r\<lparr>position := f (i + 1 + idx xs (stop_id r))\<rparr> else r) \<circ> set_position t x (f i)) r
          = (if trip_id r = t \<and> stop_id r \<in> set (x # xs)
                     then r\<lparr>position := f (i + idx (x # xs) (stop_id r))\<rparr> else r)"
    proof (cases "stop_id r = x \<and> trip_id r = t")
      case True
      then show ?thesis using nx by (simp add: set_position_def)
    next
      case False
      then have "set_position t x (f i) r = r" by (auto simp: set_position_def)
      then show ?thesis using False by (auto simp: add.assoc)
    qed
  qed
  finally show ?case .
qed

lemma in_set_mapD: "y \<in> set (map f xs) \<Longrightarrow> \<exists>x. x \<in> set xs \<and> y = f x"
  by auto

lemma stop_key_set_position:
  "stop_key (set_position t x q r) = (if stop_id r = x \<and> trip_id r = t then (t, q) else stop_key r)"
  by (simp add: set_position_def stop_key_def)

lemma unique_set_position:
  assumes d: "distinct (map stop_id rows)" and u: "unique_position_per_trip rows"
    and free: "\<And>r. r \<in> set rows \<Longrightarrow> trip_id r = t \<Longrightarrow> stop_id r \<noteq> x \<Longrightarrow> position r \<noteq> q"
  shows "unique_position_per_trip (map (set_position t x q) rows)"
proof -
  have dr: "distinct rows" using d by (simp add: distinct_map)
  have ii: "inj_on stop_id (set rows)" using d by (simp add: distinct_map)
  have ik: "inj_on stop_key (set rows)" using u by (simp add: unique_position_per_trip_def distinct_map)
  have "inj_on (stop_key \<circ> set_position t x q) (set rows)"
  proof (rule inj_onI)
    fix a b assume a: "a \<in> set rows" and b: "b \<in> set rows"
      and eq: "(stop_key \<circ> set_position t x q) a = (stop_key \<circ> set_position t x q) b"
    let ?ma = "stop_id a = x \<and> trip_id a = t" and ?mb = "stop_id b = x \<and> trip_id b = t"
    consider (both) "?ma" "?mb" | (left) "?ma" "\<not> ?mb" | (right) "\<not> ?ma" "?mb" | (none) "\<not> ?ma" "\<not> ?mb"
      by blast
    then show "a = b"
    proof cases
      case both
      then have "stop_id a = stop_id b" by simp
      then show ?thesis using inj_onD[OF ii, of a b] a b by simp
    next
      case left
      then have "stop_key b = (t, q)" using eq by (auto simp: stop_key_set_position split: if_splits)
      then have "trip_id b = t" "position b = q" by (simp_all add: stop_key_def)
      then have "stop_id b \<noteq> x" using left(2) by simp
      then show ?thesis using free[OF b \<open>trip_id b = t\<close>] \<open>position b = q\<close> by simp
    next
      case right
      then have "stop_key a = (t, q)" using eq by (auto simp: stop_key_set_position split: if_splits)
      then have "trip_id a = t" "position a = q" by (simp_all add: stop_key_def)
      then have "stop_id a \<noteq> x" using right(1) by simp
      then show ?thesis using free[OF a \<open>trip_id a = t\<close>] \<open>position a = q\<close> by simp
    next
      case none
      then have "stop_key a = stop_key b" using eq by (auto simp: stop_key_set_position split: if_splits)
      then show ?thesis using inj_onD[OF ik, of a b] a b by simp
    qed
  qed
  then show ?thesis using dr by (simp add: unique_position_per_trip_def distinct_map)
qed

lemma update_position_Some:
  "unique_position_per_trip (map (set_position t x q) (trip_stops db)) \<Longrightarrow>
   update_position t x q db = Some (db\<lparr>trip_stops := map (set_position t x q) (trip_stops db)\<rparr>)"
  by (simp add: update_position_def)

lemma staging_ok:
  assumes "distinct (map stop_id (trip_stops db))" and "unique_position_per_trip (trip_stops db)"
    and "\<And>r. r \<in> set (trip_stops db) \<Longrightarrow> trip_id r = t \<Longrightarrow> - i \<le> position r"
  shows "fst (position_loop t (\<lambda>i. - (i + 1)) ids i db) = None
       \<and> unique_position_per_trip (trip_stops (snd (position_loop t (\<lambda>i. - (i + 1)) ids i db)))"
  using assms
proof (induction ids arbitrary: i db)
  case Nil then show ?case by simp
next
  case (Cons x xs)
  let ?rows = "map (set_position t x (- (i + 1))) (trip_stops db)"
  let ?db1 = "db\<lparr>trip_stops := ?rows\<rparr>"
  have u1: "unique_position_per_trip ?rows"
  proof (rule unique_set_position[OF Cons.prems(1,2)])
    fix r assume "r \<in> set (trip_stops db)" "trip_id r = t"
    then have "- i \<le> position r" by (rule Cons.prems(3))
    then show "position r \<noteq> - (i + 1)" by simp
  qed
  have up: "update_position t x (- (i + 1)) db = Some ?db1" using u1 by (rule update_position_Some)
  have d1: "distinct (map stop_id (trip_stops ?db1))" using Cons.prems(1) by (simp add: o_def)
  have low: "- (i + 1) \<le> position r" if "r \<in> set (trip_stops ?db1)" "trip_id r = t" for r
  proof -
    have "r \<in> set (map (set_position t x (- (i + 1))) (trip_stops db))" using that(1) by simp
    from in_set_mapD[OF this]
    obtain r0 where r0: "r0 \<in> set (trip_stops db)" "r = set_position t x (- (i + 1)) r0"
      by blast
    then have "trip_id r0 = t" using that(2) by simp
    then have "- i \<le> position r0" using Cons.prems(3) r0(1) by simp
    then show ?thesis using r0(2) by (simp add: set_position_def)
  qed
  have "fst (position_loop t (\<lambda>i. - (i + 1)) xs (i + 1) ?db1) = None
       \<and> unique_position_per_trip (trip_stops (snd (position_loop t (\<lambda>i. - (i + 1)) xs (i + 1) ?db1)))"
    using u1 by (intro Cons.IH[OF d1 _ low]) simp_all
  then show ?case using up by simp
qed

lemma final_ok:
  assumes "distinct (map stop_id (trip_stops db))" and "unique_position_per_trip (trip_stops db)"
    and "distinct ids" and "0 \<le> i"
    and "\<And>r. r \<in> set (trip_stops db) \<Longrightarrow> trip_id r = t \<Longrightarrow>
           (if stop_id r \<in> set ids then position r < 0 else position r < i)"
  shows "fst (position_loop t (\<lambda>i. i) ids i db) = None
       \<and> unique_position_per_trip (trip_stops (snd (position_loop t (\<lambda>i. i) ids i db)))"
  using assms
proof (induction ids arbitrary: i db)
  case Nil then show ?case by simp
next
  case (Cons x xs)
  let ?rows = "map (set_position t x i) (trip_stops db)"
  let ?db1 = "db\<lparr>trip_stops := ?rows\<rparr>"
  have nx: "x \<notin> set xs" and dx: "distinct xs" using Cons.prems(3) by simp_all
  have u1: "unique_position_per_trip ?rows"
  proof (rule unique_set_position[OF Cons.prems(1,2)])
    fix r assume r: "r \<in> set (trip_stops db)" "trip_id r = t" "stop_id r \<noteq> x"
    have "if stop_id r \<in> set (x # xs) then position r < 0 else position r < i"
      using r(1,2) by (rule Cons.prems(5))
    then have "position r < i" using Cons.prems(4) by (auto split: if_splits)
    then show "position r \<noteq> i" by simp
  qed
  have up: "update_position t x i db = Some ?db1" using u1 by (rule update_position_Some)
  have d1: "distinct (map stop_id (trip_stops ?db1))" using Cons.prems(1) by (simp add: o_def)
  have J: "if stop_id r \<in> set xs then position r < 0 else position r < i + 1"
    if "r \<in> set (trip_stops ?db1)" "trip_id r = t" for r
  proof -
    have "r \<in> set (map (set_position t x i) (trip_stops db))" using that(1) by simp
    from in_set_mapD[OF this]
    obtain r0 where r0: "r0 \<in> set (trip_stops db)" "r = set_position t x i r0"
      by blast
    then have t0: "trip_id r0 = t" using that(2) by simp
    have J0: "if stop_id r0 \<in> set (x # xs) then position r0 < 0 else position r0 < i"
      using r0(1) t0 by (rule Cons.prems(5))
    show ?thesis
    proof (cases "stop_id r0 = x")
      case True
      then show ?thesis using r0(2) t0 nx by (simp add: set_position_def)
    next
      case False
      then have "r = r0" using r0(2) by (simp add: set_position_def)
      then show ?thesis using J0 False by (auto split: if_splits)
    qed
  qed
  have "fst (position_loop t (\<lambda>i. i) xs (i + 1) ?db1) = None
       \<and> unique_position_per_trip (trip_stops (snd (position_loop t (\<lambda>i. i) xs (i + 1) ?db1)))"
    using Cons.prems(4) u1 by (intro Cons.IH[OF d1 _ dx _ J]) simp_all
  then show ?case using up by simp
qed

section \<open>PUT reorder: what is validated\<close>

lemma position_loop_ids:
  "map stop_id (trip_stops (snd (position_loop t f ids i db))) = map stop_id (trip_stops db)"
proof (induction ids arbitrary: i db)
  case Nil then show ?case by simp
next
  case (Cons x xs)
  show ?case
  proof (cases "update_position t x (f i) db")
    case None then show ?thesis by simp
  next
    case (Some db1)
    then have "db1 = db\<lparr>trip_stops := map (set_position t x (f i)) (trip_stops db)\<rparr>"
      by (auto simp: update_position_def Let_def split: if_splits)
    then show ?thesis using Cons[of "i + 1" db1] Some by (simp add: o_def)
  qed
qed

lemma segments_of_deleted [simp]: "segments_of t (delete_segments_of_trip t db) = []"
  by (simp add: segments_of_def delete_segments_of_trip_def)

lemma stops_delete_segments_of_trip [simp]:
  "trip_stops (delete_segments_of_trip t db) = trip_stops db"
  by (simp add: delete_segments_of_trip_def)

lemma reorder_stops_array:
  "reorder_stops t (Some ids) db =
     (let db1 = delete_segments_of_trip t db;
          r1 = position_loop t (\<lambda>i. - (i + 1)) ids 0 db1;
          r2 = position_loop t (\<lambda>i. i) ids 0 (snd r1)
      in if fst r1 \<noteq> None then (Inl (the (fst r1)), snd r1)
         else if fst r2 \<noteq> None then (Inl (the (fst r2)), snd r2)
         else (Inr (), snd r2))"
  by (auto simp: reorder_stops_def Let_def split: prod.splits option.splits)

lemma reorder_array_outcome:
  "fst (reorder_stops t (Some ids) db) \<noteq> Inl ValidationError
   \<and> segments_of t (snd (reorder_stops t (Some ids) db)) = []
   \<and> map stop_id (trip_stops (snd (reorder_stops t (Some ids) db))) = map stop_id (trip_stops db)"
proof -
  let ?db1 = "delete_segments_of_trip t db"
  let ?r1 = "position_loop t (\<lambda>i. - (i + 1)) ids 0 ?db1"
  let ?r2 = "position_loop t (\<lambda>i. i) ids 0 (snd ?r1)"
  have e1: "fst ?r1 = None \<or> fst ?r1 = Some DatabaseError" by (rule position_loop_error)
  have e2: "fst ?r2 = None \<or> fst ?r2 = Some DatabaseError" by (rule position_loop_error)
  have s1: "trip_route_segments (snd ?r1) = trip_route_segments ?db1"
    using position_loop_frame[of t "\<lambda>i. - (i + 1)" ids 0 ?db1] by simp
  have s2: "trip_route_segments (snd ?r2) = trip_route_segments ?db1"
    using position_loop_frame[of t "\<lambda>i. i" ids 0 "snd ?r1"] s1 by simp
  have g1: "segments_of t (snd ?r1) = []" using s1 by (simp add: segments_of_def delete_segments_of_trip_def)
  have g2: "segments_of t (snd ?r2) = []" using s2 by (simp add: segments_of_def delete_segments_of_trip_def)
  have i1: "map stop_id (trip_stops (snd ?r1)) = map stop_id (trip_stops db)"
    by (simp add: position_loop_ids)
  have i2: "map stop_id (trip_stops (snd ?r2)) = map stop_id (trip_stops db)"
    by (simp add: position_loop_ids i1)
  show ?thesis
    unfolding reorder_stops_array Let_def using e1 e2 g1 g2 i1 i2 by auto
qed

text \<open>
  C2, as the code has it. The handler answers ValidationError, changing nothing, exactly
  when \<open>order\<close> is not an array. It never compares an array with the trip's stop ids: for
  every array it first deletes all cached segments of the trip, and it never answers
  ValidationError; no stop row is added or removed.
\<close>

theorem reorder_validates_only_the_array:
  "(fst (reorder_stops tripId ord db) = Inl ValidationError \<longleftrightarrow> ord = None)
   \<and> (ord = None \<longrightarrow> snd (reorder_stops tripId ord db) = db)
   \<and> (ord \<noteq> None \<longrightarrow>
         segments_of tripId (snd (reorder_stops tripId ord db)) = []
         \<and> map stop_id (trip_stops (snd (reorder_stops tripId ord db))) = map stop_id (trip_stops db))"
proof (cases ord)
  case None
  then show ?thesis by (simp add: reorder_stops_def)
next
  case (Some ids)
  then show ?thesis using reorder_array_outcome[of tripId ids db] by simp
qed

theorem reorder_validates_only_the_array_witness:
  "fst (reorder_stops 1 None example_db) = Inl ValidationError
   \<and> snd (reorder_stops 1 None example_db) = example_db
   \<and> Some [2, 2, 9] \<noteq> (None :: int list option)
   \<and> fst (reorder_stops 1 (Some [2, 2, 9]) example_db) \<noteq> Inl ValidationError
   \<and> segments_of 1 (snd (reorder_stops 1 (Some [2, 2, 9]) example_db)) = []
   \<and> map stop_id (trip_stops (snd (reorder_stops 1 (Some [2, 2, 9]) example_db))) = [1, 2, 3, 4]"
proof -
  have i: "map stop_id (trip_stops example_db) = [1, 2, 3, 4]"
    by (simp add: example_db_def waypoint_stop_def)
  show ?thesis
    using reorder_validates_only_the_array[of 1 None example_db]
      reorder_validates_only_the_array[of 1 "Some [2, 2, 9]" example_db] i
    by simp
qed

theorem reorder_wrong_length_counterexample:
  "reorder_stops 1 (Some [2]) example_db =
     (Inl DatabaseError,
      example_db\<lparr>trip_stops := [waypoint_stop 1 1 0, waypoint_stop 2 1 (- 1), waypoint_stop 3 1 2,
                                 waypoint_stop 4 2 0],
                 trip_route_segments := []\<rparr>)"
  by (simp add: reorder_stops_def delete_segments_of_trip_def update_position_def
      set_position_def unique_position_per_trip_def stop_key_def
      example_db_def waypoint_stop_def cached_segment_def Let_def)

section \<open>PUT reorder: reading the stops in position order\<close>

lemma idx_nth: "distinct ids \<Longrightarrow> j < length ids \<Longrightarrow> idx ids (ids ! j) = int j"
proof (induction ids arbitrary: j)
  case Nil then show ?case by simp
next
  case (Cons y ys)
  show ?case
  proof (cases j)
    case 0 then show ?thesis by simp
  next
    case (Suc k)
    then have k: "k < length ys" using Cons.prems(2) by simp
    then have "ys ! k \<in> set ys" by simp
    then have "ys ! k \<noteq> y" using Cons.prems(1) by auto
    then show ?thesis using Cons.IH[of k] Cons.prems(1) k Suc by simp
  qed
qed

lemma idx_image:
  assumes "distinct ids"
  shows "idx ids ` set ids = {0 ..< int (length ids)}"
proof (rule set_eqI, rule iffI)
  fix j assume "j \<in> idx ids ` set ids"
  then show "j \<in> {0 ..< int (length ids)}" using idx_bounds by auto
next
  fix j assume j: "j \<in> {0 ..< int (length ids)}"
  then have n: "nat j < length ids" by auto
  then have "idx ids (ids ! nat j) = j" using idx_nth[OF assms n] j by simp
  moreover have "ids ! nat j \<in> set ids" using n by simp
  ultimately show "j \<in> idx ids ` set ids" by (metis imageI)
qed

lemma sorted_distinct_range:
  fixes ps :: "int list"
  assumes "sorted ps" and "distinct ps" and "set ps = {0 ..< int (length ps)}"
  shows "ps = map int [0 ..< length ps]"
proof (rule sorted_distinct_set_unique[OF assms(1,2)])
  show "sorted (map int [0 ..< length ps])" by (simp add: sorted_map sorted_wrt_mono_rel[of _ "(<)"] strict_sorted_iff[symmetric])
  show "distinct (map int [0 ..< length ps])" by (simp add: distinct_map inj_on_def)
  show "set ps = set (map int [0 ..< length ps])" using assms(3) by (simp add: image_int_atLeastLessThan)
qed

lemma positions_by_index:
  assumes di: "distinct ids" and dy: "distinct (map stop_id ys)"
    and s: "set (map stop_id ys) = set ids"
    and p: "\<And>y. y \<in> set ys \<Longrightarrow> position y = idx ids (stop_id y)"
  shows "distinct (map position ys) \<and> set (map position ys) = {0 ..< int (length ys)}"
proof -
  have len: "length ys = length ids"
    using distinct_card[OF di] distinct_card[OF dy] s by simp
  have eq: "map position ys = map (idx ids) (map stop_id ys)" using p by simp
  have "inj_on (idx ids) (set (map stop_id ys))"
    unfolding s by (rule inj_onI) (rule idx_inj)
  then have "distinct (map position ys)" unfolding eq using dy by (simp only: distinct_map)
  moreover have "set (map position ys) = {0 ..< int (length ys)}"
    unfolding eq set_map[of "idx ids"] s len by (rule idx_image[OF di])
  ultimately show ?thesis by simp
qed

lemma order_by_position:
  assumes di: "distinct ids" and dy: "distinct (map stop_id ys)"
    and s: "set (map stop_id ys) = set ids"
    and p: "\<And>y. y \<in> set ys \<Longrightarrow> position y = idx ids (stop_id y)"
  shows "map stop_id (sort_key position ys) = ids"
proof -
  let ?xs = "sort_key position ys"
  have len: "length ys = length ids"
    using distinct_card[OF di] distinct_card[OF dy] s by simp
  have pc: "distinct (map position ys)" "set (map position ys) = {0 ..< int (length ys)}"
    using positions_by_index[OF assms] by simp_all
  have sx: "set ?xs = set ys" by simp
  have "distinct ?xs" using dy by (simp add: distinct_map)
  moreover have "inj_on position (set ?xs)" using pc(1) by (simp add: distinct_map)
  ultimately have d: "distinct (map position ?xs)" by (simp only: distinct_map)
  have st: "set (map position ?xs) = {0 ..< int (length (map position ?xs))}"
    using pc(2) by simp
  have pm: "map position ?xs = map int [0 ..< length (map position ?xs)]"
    by (rule sorted_distinct_range[OF sorted_sort_key d st])
  show ?thesis
  proof (rule nth_equalityI)
    show "length (map stop_id ?xs) = length ids" by (simp add: len)
  next
    fix k assume "k < length (map stop_id ?xs)"
    then have k: "k < length ?xs" by simp
    then have mem: "?xs ! k \<in> set ys" using sx nth_mem by blast
    have "position (?xs ! k) = map position ?xs ! k" using k by simp
    also have "\<dots> = int k" using k by (subst pm) simp
    finally have "idx ids (stop_id (?xs ! k)) = int k" using p[OF mem] by simp
    moreover have "stop_id (?xs ! k) \<in> set ids" using mem s by auto
    ultimately have "ids ! k = stop_id (?xs ! k)" using nth_idx[of "stop_id (?xs ! k)" ids] by simp
    then show "map stop_id ?xs ! k = ids ! k" using k by simp
  qed
qed

section \<open>PUT reorder: the result for a permutation\<close>

lemma list_all_stops_nonneg:
  "list_all (\<lambda>s. 0 \<le> position s) (stops_of t db) \<Longrightarrow> r \<in> set (trip_stops db) \<Longrightarrow>
   trip_id r = t \<Longrightarrow> 0 \<le> position r"
  by (simp add: list_all_iff stops_of_def)

lemma reorder_stage_result:
  assumes d: "distinct (map stop_id (trip_stops db))" and u: "unique_position_per_trip (trip_stops db)"
    and nn: "list_all (\<lambda>s. 0 \<le> position s) (stops_of t db)"
    and di: "distinct ids" and perm: "set ids = set (map stop_id (stops_of t db))"
  obtains db2 where
    "position_loop t (\<lambda>i. - (i + 1)) ids 0 (delete_segments_of_trip t db) = (None, db2)"
    "trip_stops db2 =
       map (\<lambda>r. if trip_id r = t \<and> stop_id r \<in> set ids
                 then r\<lparr>position := - (0 + idx ids (stop_id r) + 1)\<rparr> else r) (trip_stops db)"
    "distinct (map stop_id (trip_stops db2))" "unique_position_per_trip (trip_stops db2)"
    "\<And>r. r \<in> set (trip_stops db2) \<Longrightarrow> trip_id r = t \<Longrightarrow> position r < 0"
proof -
  let ?db1 = "delete_segments_of_trip t db"
  let ?S = "\<lambda>r. if trip_id r = t \<and> stop_id r \<in> set ids
                 then r\<lparr>position := - (0 + idx ids (stop_id r) + 1)\<rparr> else r"
  have low: "\<And>r. r \<in> set (trip_stops ?db1) \<Longrightarrow> trip_id r = t \<Longrightarrow> - 0 \<le> position r"
    using list_all_stops_nonneg[OF nn] by simp
  have ok: "fst (position_loop t (\<lambda>i. - (i + 1)) ids 0 ?db1) = None
       \<and> unique_position_per_trip (trip_stops (snd (position_loop t (\<lambda>i. - (i + 1)) ids 0 ?db1)))"
    using d u by (intro staging_ok low) simp_all
  obtain db2 where r: "position_loop t (\<lambda>i. - (i + 1)) ids 0 ?db1 = (None, db2)"
    using ok by (cases "position_loop t (\<lambda>i. - (i + 1)) ids 0 ?db1") simp
  have rows: "trip_stops db2 = map ?S (trip_stops db)"
    using position_loop_None[OF r] relabel_closed_form[OF di, of t "\<lambda>i. - (i + 1)" 0 "trip_stops db"]
    by simp
  have d2: "distinct (map stop_id (trip_stops db2))"
    using position_loop_None[OF r] d by simp
  have u2: "unique_position_per_trip (trip_stops db2)" using ok r by simp
  have neg: "position r < 0" if "r \<in> set (trip_stops db2)" "trip_id r = t" for r
  proof -
    have "r \<in> set (map ?S (trip_stops db))" using that(1) rows by simp
    from in_set_mapD[OF this] obtain r0 where r0: "r0 \<in> set (trip_stops db)" "r = ?S r0" by blast
    have t0: "trip_id r0 = t" using that(2) r0(2) by (simp split: if_splits)
    then have "r0 \<in> set (stops_of t db)" using r0(1) by (simp add: stops_of_def)
    then have "stop_id r0 \<in> set ids" using perm by simp
    then have "position r = - (0 + idx ids (stop_id r0) + 1)" using r0(2) t0 by simp
    then show ?thesis using idx_nonneg[of ids "stop_id r0"] by simp
  qed
  show ?thesis using that[OF r rows d2 u2 neg] by simp
qed

lemma filter_trip_map:
  assumes "\<And>s. trip_id (f s) = trip_id s"
  shows "filter (\<lambda>s. trip_id s = t) (map f rows) = map f (filter (\<lambda>s. trip_id s = t) rows)"
  by (simp add: filter_map o_def assms)

lemma reorder_result:
  assumes d: "distinct (map stop_id (trip_stops db))" and u: "unique_position_per_trip (trip_stops db)"
    and nn: "list_all (\<lambda>s. 0 \<le> position s) (stops_of t db)"
    and di: "distinct ids" and perm: "set ids = set (map stop_id (stops_of t db))"
  obtains db3 where "reorder_stops t (Some ids) db = (Inr (), db3)"
    "stops_of t db3 = map (\<lambda>r. r\<lparr>position := idx ids (stop_id r)\<rparr>) (stops_of t db)"
proof (rule reorder_stage_result[OF assms])
  let ?S = "\<lambda>r. if trip_id r = t \<and> stop_id r \<in> set ids
                 then r\<lparr>position := - (0 + idx ids (stop_id r) + 1)\<rparr> else r"
  let ?G = "\<lambda>r. if trip_id r = t \<and> stop_id r \<in> set ids
                 then r\<lparr>position := 0 + idx ids (stop_id r)\<rparr> else r"
  fix db2
  assume r1: "position_loop t (\<lambda>i. - (i + 1)) ids 0 (delete_segments_of_trip t db) = (None, db2)"
    and rows2: "trip_stops db2 = map ?S (trip_stops db)"
    and d2: "distinct (map stop_id (trip_stops db2))" and u2: "unique_position_per_trip (trip_stops db2)"
    and neg: "\<And>r. r \<in> set (trip_stops db2) \<Longrightarrow> trip_id r = t \<Longrightarrow> position r < 0"
  have J: "if stop_id r \<in> set ids then position r < 0 else position r < 0"
    if "r \<in> set (trip_stops db2)" "trip_id r = t" for r
    using neg[OF that] by simp
  have "fst (position_loop t (\<lambda>i. i) ids 0 db2) = None
       \<and> unique_position_per_trip (trip_stops (snd (position_loop t (\<lambda>i. i) ids 0 db2)))"
    by (rule final_ok[OF d2 u2 di order_refl J])
  then have ok: "fst (position_loop t (\<lambda>i. i) ids 0 db2) = None" ..
  obtain e db3 where r2': "position_loop t (\<lambda>i. i) ids 0 db2 = (e, db3)"
    by (cases "position_loop t (\<lambda>i. i) ids 0 db2")
  then have r2: "position_loop t (\<lambda>i. i) ids 0 db2 = (None, db3)" using ok by simp
  have "trip_stops db3 = relabel t (\<lambda>i. i) ids 0 (trip_stops db2)"
    using position_loop_None[OF r2] by simp
  then have rows3: "trip_stops db3 = map ?G (map ?S (trip_stops db))"
    by (simp only: relabel_closed_form[OF di] rows2)
  have res: "reorder_stops t (Some ids) db = (Inr (), db3)"
    by (simp only: reorder_stops_array Let_def r1 r2 fst_conv snd_conv) simp
  have tr: "\<And>s. trip_id ((?G \<circ> ?S) s) = trip_id s" by simp
  have "stops_of t db3 = filter (\<lambda>s. trip_id s = t) (map (?G \<circ> ?S) (trip_stops db))"
    unfolding stops_of_def rows3 map_map ..
  also have "\<dots> = map (?G \<circ> ?S) (stops_of t db)"
    unfolding stops_of_def by (rule filter_trip_map[OF tr])
  also have "\<dots> = map (\<lambda>r. r\<lparr>position := idx ids (stop_id r)\<rparr>) (stops_of t db)"
  proof (rule map_cong[OF refl])
    fix r assume r: "r \<in> set (stops_of t db)"
    then have "trip_id r = t" "stop_id r \<in> set ids" using perm by (simp_all add: stops_of_def)
    then show "(?G \<circ> ?S) r = r\<lparr>position := idx ids (stop_id r)\<rparr>" by simp
  qed
  finally show thesis using that[OF res] by simp
qed

text \<open>The state after \<open>k + 1\<close> statements of a loop is statement \<open>k\<close> run on the state after \<open>k\<close>.\<close>

lemma position_loop_take_Suc:
  assumes "k < length ids"
  shows "position_loop t f (take (Suc k) ids) 0 db =
           (case position_loop t f (take k ids) 0 db of
              (None, dbk) \<Rightarrow> position_loop t f [ids ! k] (int k) dbk
            | (Some e, dbk) \<Rightarrow> (Some e, dbk))"
proof -
  have a: "take (Suc k) ids = take k ids @ [ids ! k]" using assms by (rule take_Suc_conv_app_nth)
  have l: "0 + int (length (take k ids)) = int k" using assms by simp
  show ?thesis unfolding a position_loop_append l ..
qed

lemma sc_id_with_coords [simp]: "sc_id (with_coords db s) = stop_id s"
  by (simp add: with_coords_def)

lemma loadStops_ids:
  "map sc_id (loadStopsWithCoords t db) = map stop_id (sort_key position (stops_of t db))"
  by (simp add: loadStopsWithCoords_def o_def)

lemma distinct_stop_ids_of:
  "distinct (map stop_id (trip_stops db)) \<Longrightarrow> distinct (map stop_id (stops_of t db))"
  by (simp add: stops_of_def distinct_map_filter)

text \<open>
  C3, as the code has it. For a trip whose positions are not negative and a list that is
  a permutation of its stop ids, the reorder succeeds; afterwards the stop ids read in
  position order are the list, the stop named at index \<open>k\<close> of the list has position \<open>k\<close>,
  and the positions are pairwise different and exactly 0, ..., N - 1. After every
  statement of the first loop and after every statement of the second loop the statement
  was accepted and no two stops of a trip share a position. The first loop writes the
  positions -1, ..., -N whatever the trip holds, so a stop that already has one of them
  stops the reorder.
\<close>

theorem reorder_permutation:
  assumes "wf_db db" and "list_all (\<lambda>s. 0 \<le> position s) (stops_of tripId db)"
    and "distinct ids" and "set ids = set (map stop_id (stops_of tripId db))"
  shows "reorder_stops tripId (Some ids) db = (Inr (), snd (final_steps tripId ids (length ids) db))
       \<and> map sc_id (loadStopsWithCoords tripId (snd (reorder_stops tripId (Some ids) db))) = ids
       \<and> (\<forall>k < length ids.
             \<exists>s \<in> set (stops_of tripId (snd (reorder_stops tripId (Some ids) db))).
               stop_id s = ids ! k \<and> position s = int k)
       \<and> distinct (positions_of tripId (snd (reorder_stops tripId (Some ids) db)))
       \<and> set (positions_of tripId (snd (reorder_stops tripId (Some ids) db)))
           = {0 ..< int (length (stops_of tripId (snd (reorder_stops tripId (Some ids) db))))}
       \<and> (\<forall>k \<le> length ids.
             fst (stage_steps tripId ids k db) = None
             \<and> unique_position_per_trip (trip_stops (snd (stage_steps tripId ids k db))))
       \<and> (\<forall>k \<le> length ids.
             fst (final_steps tripId ids k db) = None
             \<and> unique_position_per_trip (trip_stops (snd (final_steps tripId ids k db))))"
proof -
  have d: "distinct (map stop_id (trip_stops db))" and u: "unique_position_per_trip (trip_stops db)"
    using assms(1) by (simp_all add: wf_db_def)
  note hyps = d u assms(2,3,4)
  let ?db' = "snd (reorder_stops tripId (Some ids) db)"
  obtain db3 where res: "reorder_stops tripId (Some ids) db = (Inr (), db3)"
    and st: "stops_of tripId db3 = map (\<lambda>r. r\<lparr>position := idx ids (stop_id r)\<rparr>) (stops_of tripId db)"
    by (rule reorder_result[OF hyps])
  have db': "?db' = db3" using res by simp
  have dy: "distinct (map stop_id (stops_of tripId db3))"
    using distinct_stop_ids_of[OF d, of tripId] by (simp add: st o_def)
  have sy: "set (map stop_id (stops_of tripId db3)) = set ids"
    using assms(4) by (simp add: st o_def)
  have py: "\<And>y. y \<in> set (stops_of tripId db3) \<Longrightarrow> position y = idx ids (stop_id y)"
    by (auto simp: st)
  have 2: "map sc_id (loadStopsWithCoords tripId ?db') = ids"
    unfolding db' loadStops_ids by (rule order_by_position[OF assms(3) dy sy py])
  have 3: "distinct (positions_of tripId ?db')
         \<and> set (positions_of tripId ?db') = {0 ..< int (length (stops_of tripId ?db'))}"
    unfolding db' positions_of_def by (rule positions_by_index[OF assms(3) dy sy py])
  have 6: "\<exists>s \<in> set (stops_of tripId ?db'). stop_id s = ids ! k \<and> position s = int k"
    if "k < length ids" for k
  proof -
    have "ids ! k \<in> set (map stop_id (stops_of tripId db3))"
      unfolding sy using that by (rule nth_mem)
    then obtain s where s: "s \<in> set (stops_of tripId db3)" "stop_id s = ids ! k" by auto
    have "position s = int k" using py[OF s(1)] idx_nth[OF assms(3) that] s(2) by simp
    then show ?thesis unfolding db' using s by blast
  qed
  have 4: "fst (stage_steps tripId ids k db) = None
         \<and> unique_position_per_trip (trip_stops (snd (stage_steps tripId ids k db)))" for k
  proof -
    have "\<And>r. r \<in> set (trip_stops (delete_segments_of_trip tripId db)) \<Longrightarrow> trip_id r = tripId
            \<Longrightarrow> - 0 \<le> position r"
      using list_all_stops_nonneg[OF assms(2)] by simp
    then show ?thesis
      unfolding stage_steps_def using d u by (intro staging_ok) simp_all
  qed
  have 5: "fst (final_steps tripId ids k db) = None
         \<and> unique_position_per_trip (trip_stops (snd (final_steps tripId ids k db)))" for k
  proof (rule reorder_stage_result[OF hyps])
    fix db2
    assume r1: "position_loop tripId (\<lambda>i. - (i + 1)) ids 0 (delete_segments_of_trip tripId db) = (None, db2)"
      and d2: "distinct (map stop_id (trip_stops db2))" and u2: "unique_position_per_trip (trip_stops db2)"
      and neg: "\<And>r. r \<in> set (trip_stops db2) \<Longrightarrow> trip_id r = tripId \<Longrightarrow> position r < 0"
    have s2: "snd (stage_steps tripId ids (length ids) db) = db2"
      by (simp only: stage_steps_def take_all[OF order_refl] r1 snd_conv)
    have J: "if stop_id r \<in> set (take k ids) then position r < 0 else position r < 0"
      if "r \<in> set (trip_stops db2)" "trip_id r = tripId" for r
      using neg[OF that] by simp
    show ?thesis
      unfolding final_steps_def s2
      by (rule final_ok[OF d2 u2 distinct_take[OF assms(3)] order_refl J])
  qed
  have "final_steps tripId ids (length ids) db
        = position_loop tripId (\<lambda>i. i) ids 0 (snd (position_loop tripId (\<lambda>i. - (i + 1)) ids 0
            (delete_segments_of_trip tripId db)))"
    by (simp only: final_steps_def stage_steps_def take_all[OF order_refl])
  moreover have "fst (position_loop tripId (\<lambda>i. - (i + 1)) ids 0 (delete_segments_of_trip tripId db)) = None"
    using 4[of "length ids"] by (simp only: stage_steps_def take_all[OF order_refl])
  moreover have "fst (final_steps tripId ids (length ids) db) = None" using 5 by blast
  ultimately have 1: "reorder_stops tripId (Some ids) db
                      = (Inr (), snd (final_steps tripId ids (length ids) db))"
    by (simp only: reorder_stops_array Let_def) simp
  show ?thesis using 1 2 3 4 5 6 by blast
qed

theorem reorder_permutation_witness:
  "wf_db example_db \<and> list_all (\<lambda>s. 0 \<le> position s) (stops_of 1 example_db)
   \<and> distinct [3, 1, 2 :: int] \<and> set [3, 1, 2] = set (map stop_id (stops_of 1 example_db))
   \<and> fst (reorder_stops 1 (Some [3, 1, 2]) example_db) = Inr ()
   \<and> map sc_id (loadStopsWithCoords 1 (snd (reorder_stops 1 (Some [3, 1, 2]) example_db))) = [3, 1, 2]
   \<and> distinct (positions_of 1 (snd (reorder_stops 1 (Some [3, 1, 2]) example_db)))
   \<and> set (positions_of 1 (snd (reorder_stops 1 (Some [3, 1, 2]) example_db)))
       = {0 ..< int (length (stops_of 1 (snd (reorder_stops 1 (Some [3, 1, 2]) example_db))))}
   \<and> (2 :: nat) \<le> length [3, 1, 2 :: int]
   \<and> fst (stage_steps 1 [3, 1, 2] 2 example_db) = None
   \<and> unique_position_per_trip (trip_stops (snd (stage_steps 1 [3, 1, 2] 2 example_db)))
   \<and> fst (final_steps 1 [3, 1, 2] 2 example_db) = None
   \<and> unique_position_per_trip (trip_stops (snd (final_steps 1 [3, 1, 2] 2 example_db)))"
proof -
  have n: "list_all (\<lambda>s. 0 \<le> position s) (stops_of 1 example_db)"
    by (simp add: stops_of_example_db waypoint_stop_def)
  have d: "distinct [3, 1, 2 :: int]" by simp
  have p: "set [3, 1, 2] = set (map stop_id (stops_of 1 example_db))"
    by (auto simp: stops_of_example_db waypoint_stop_def)
  have k: "(2 :: nat) \<le> length [3, 1, 2 :: int]" by simp
  note t = reorder_permutation[OF wf_example_db n d p]
  have 1: "fst (reorder_stops 1 (Some [3, 1, 2]) example_db) = Inr ()" using t by simp
  have s: "fst (stage_steps 1 [3, 1, 2] 2 example_db) = None
           \<and> unique_position_per_trip (trip_stops (snd (stage_steps 1 [3, 1, 2] 2 example_db)))"
    using t k by blast
  have f: "fst (final_steps 1 [3, 1, 2] 2 example_db) = None
           \<and> unique_position_per_trip (trip_stops (snd (final_steps 1 [3, 1, 2] 2 example_db)))"
    using t k by blast
  show ?thesis using wf_example_db n d p k 1 s f t by blast
qed

text \<open>
  The state that the reorder request with the array \<open>[2]\<close> leaves has stop 2 of trip 1 at
  position -1. There the reorder with the permutation \<open>[1, 2, 3]\<close> is stopped by its first
  statement, which moves stop 1 to position -1: the positions stay 0, -1, 2.
\<close>

theorem reorder_negative_position_counterexample:
  "snd (reorder_stops 1 (Some [2]) example_db) = staged_db
   \<and> wf_db staged_db
   \<and> map (\<lambda>s. (stop_id s, position s)) (stops_of 1 staged_db) = [(1, 0), (2, - 1), (3, 2)]
   \<and> distinct [1, 2, 3 :: int] \<and> set [1, 2, 3] = set (map stop_id (stops_of 1 staged_db))
   \<and> reorder_stops 1 (Some [1, 2, 3]) staged_db = (Inl DatabaseError, staged_db)
   \<and> map sc_id (loadStopsWithCoords 1 (snd (reorder_stops 1 (Some [1, 2, 3]) staged_db)))
       = [2, 1, 3]"
proof -
  have 1: "snd (reorder_stops 1 (Some [2]) example_db) = staged_db"
    by (simp add: reorder_stops_def update_position_def set_position_def
        delete_segments_of_trip_def unique_position_per_trip_def stop_key_def Let_def
        example_defs)
  have 2: "wf_db staged_db"
    by (simp add: wf_db_def unique_position_per_trip_def stop_key_def int4_def example_defs)
  have 3: "map (\<lambda>s. (stop_id s, position s)) (stops_of 1 staged_db) = [(1, 0), (2, - 1), (3, 2)]"
    by (simp add: stops_of_def example_defs)
  have 4: "set [1, 2, 3] = set (map stop_id (stops_of 1 staged_db))"
    by (auto simp: stops_of_def example_defs)
  have 5: "reorder_stops 1 (Some [1, 2, 3]) staged_db = (Inl DatabaseError, staged_db)"
    by (simp add: reorder_stops_def update_position_def set_position_def
        delete_segments_of_trip_def unique_position_per_trip_def stop_key_def Let_def
        example_defs)
  have 6: "map sc_id (loadStopsWithCoords 1 staged_db) = [2, 1, 3]"
    by (simp add: loadStopsWithCoords_def with_coords_def stops_of_def example_defs)
  show ?thesis using 1 2 3 4 5 6 by simp
qed

section \<open>POST routes: the loop over the consecutive pairs\<close>

lemma consecutive_simps [simp]:
  "consecutive [] = []" "consecutive [x] = []"
  "consecutive (x # y # zs) = (x, y) # consecutive (y # zs)"
  by (simp_all add: consecutive_def)

lemma is_segment_update [simp]:
  "is_segment t a b (g\<lparr>route_geometry := x, distance_meters := y, duration_seconds := z\<rparr>)
     = is_segment t a b g"
  by (simp add: is_segment_def)

lemma upsert_frame [simp]:
  "trip_stops (upsert_segment t a b r db) = trip_stops db"
  "trips (upsert_segment t a b r db) = trips db"
  "timeline_entries (upsert_segment t a b r db) = timeline_entries db"
  "trip_stops_id_seq (upsert_segment t a b r db) = trip_stops_id_seq db"
  by (simp_all add: upsert_segment_def Let_def)

lemma filter_upsert_other:
  assumes "(a, b) \<noteq> (a', b')"
  shows "filter (is_segment t a b) (trip_route_segments (upsert_segment t a' b' r db))
         = filter (is_segment t a b) (trip_route_segments db)"
proof -
  have ne: "\<And>g. is_segment t a' b' g \<Longrightarrow> \<not> is_segment t a b g"
    using assms by (auto simp: is_segment_def)
  have "filter (is_segment t a b)
          (map (\<lambda>g. if is_segment t a' b' g
                     then g\<lparr>route_geometry := geometry r, distance_meters := distance r,
                            duration_seconds := duration r\<rparr>
                     else g) segs)
        = filter (is_segment t a b) segs" for segs
    using ne by (induction segs) auto
  moreover have "\<not> is_segment t a b
      \<lparr>seg_id = i, seg_trip_id = t, from_stop_id = a', to_stop_id = b', route_geometry = x,
       distance_meters = y, duration_seconds = z\<rparr>" for i x y z
    using assms by (auto simp: is_segment_def)
  ultimately show ?thesis by (simp add: upsert_segment_def Let_def)
qed

lemma existing_upsert_same: "existing t a b (upsert_segment t a b r db)"
proof (cases "existing t a b db")
  case True
  then obtain g where g: "g \<in> set (trip_route_segments db)" "is_segment t a b g"
    by (auto simp: existing_def filter_empty_conv)
  let ?u = "\<lambda>g. if is_segment t a b g
                     then g\<lparr>route_geometry := geometry r, distance_meters := distance r,
                            duration_seconds := duration r\<rparr>
                     else g"
  have "?u g \<in> ?u ` set (trip_route_segments db)" using g(1) by (rule imageI)
  then have "?u g \<in> set (map ?u (trip_route_segments db))" by (simp only: set_map)
  moreover have "is_segment t a b (?u g)" using g(2) by simp
  ultimately have "filter (is_segment t a b) (map ?u (trip_route_segments db)) \<noteq> []"
    unfolding filter_empty_conv by blast
  then show ?thesis using True by (simp add: existing_def upsert_segment_def Let_def)
next
  case False
  then show ?thesis by (simp add: existing_def upsert_segment_def Let_def is_segment_def)
qed

lemma existing_upsert_mono:
  assumes "existing t a b db"
  shows "existing t a b (upsert_segment t a' b' r db)"
proof (cases "(a, b) = (a', b')")
  case True
  then show ?thesis using existing_upsert_same[of t a b r db] by simp
next
  case False
  then show ?thesis using assms filter_upsert_other[OF False, of t r db] by (simp add: existing_def)
qed

text \<open>The three ways one iteration of the route loop can go.\<close>

lemma route_loop_cases:
  obtains (skip) "\<not> force" "existing t (sc_id x) (sc_id y) db"
      "route_loop t force net (x # y # zs) calls db = route_loop t force net (y # zs) calls db"
  | (fail) msg where "force \<or> \<not> existing t (sc_id x) (sc_id y) db"
      "fetchRouteSegment (net (length calls)
         (Number (sc_lng x), Number (sc_lat x), Number (sc_lng y), Number (sc_lat y))) = Inl msg"
      "route_loop t force net (x # y # zs) calls db = (Some msg, calls @ [(sc_id x, sc_id y)], db)"
  | (fetch) route where "force \<or> \<not> existing t (sc_id x) (sc_id y) db"
      "fetchRouteSegment (net (length calls)
         (Number (sc_lng x), Number (sc_lat x), Number (sc_lng y), Number (sc_lat y))) = Inr route"
      "route_loop t force net (x # y # zs) calls db =
         route_loop t force net (y # zs) (calls @ [(sc_id x, sc_id y)])
           (upsert_segment t (sc_id x) (sc_id y) route db)"
proof (cases "\<not> force \<and> existing t (sc_id x) (sc_id y) db")
  case True
  then show ?thesis using skip by simp
next
  case False
  then have c: "force \<or> \<not> existing t (sc_id x) (sc_id y) db" by blast
  show ?thesis
  proof (cases "fetchRouteSegment (net (length calls)
         (Number (sc_lng x), Number (sc_lat x), Number (sc_lng y), Number (sc_lat y)))")
    case (Inl msg)
    have "route_loop t force net (x # y # zs) calls db = (Some msg, calls @ [(sc_id x, sc_id y)], db)"
      using False Inl by (simp only: route_loop.simps if_False sum.case)
    then show ?thesis using fail[OF c Inl] by blast
  next
    case (Inr route)
    have "route_loop t force net (x # y # zs) calls db =
         route_loop t force net (y # zs) (calls @ [(sc_id x, sc_id y)])
           (upsert_segment t (sc_id x) (sc_id y) route db)"
      using False Inr by (simp only: route_loop.simps if_False sum.case)
    then show ?thesis using fetch[OF c Inr] by blast
  qed
qed

lemma route_loop_frame:
  "trip_stops (snd (snd (route_loop t force net stops calls db))) = trip_stops db
   \<and> trips (snd (snd (route_loop t force net stops calls db))) = trips db
   \<and> timeline_entries (snd (snd (route_loop t force net stops calls db))) = timeline_entries db"
proof (induction stops arbitrary: calls db rule: induct_list012)
  case 1 then show ?case by simp
next
  case (2 x) then show ?case by simp
next
  case (3 x y zs)
  show ?case
  proof (cases rule: route_loop_cases[where force=force and t=t and x=x and y=y and db=db and net=net and calls=calls and zs=zs])
    case skip
    then show ?thesis using 3(2)[of calls db] by simp
  next
    case (fail msg)
    then show ?thesis by simp
  next
    case (fetch route)
    then show ?thesis
      using 3(2)[of "calls @ [(sc_id x, sc_id y)]" "upsert_segment t (sc_id x) (sc_id y) route db"]
      by simp
  qed
qed

lemma route_loop_mono:
  "existing t a b db \<Longrightarrow> existing t a b (snd (snd (route_loop t force net stops calls db)))"
proof (induction stops arbitrary: calls db rule: induct_list012)
  case 1 then show ?case by simp
next
  case (2 x) then show ?case by simp
next
  case (3 x y zs)
  show ?case
  proof (cases rule: route_loop_cases[where force=force and t=t and x=x and y=y and db=db and net=net and calls=calls and zs=zs])
    case skip
    then show ?thesis using 3(2)[OF 3(3), of calls] by simp
  next
    case (fail msg)
    then show ?thesis using 3(3) by simp
  next
    case (fetch route)
    have "existing t a b (upsert_segment t (sc_id x) (sc_id y) route db)"
      using 3(3) by (rule existing_upsert_mono)
    then show ?thesis using 3(2)[of _ "calls @ [(sc_id x, sc_id y)]"] fetch(3) by simp
  qed
qed

lemma route_loop_extends:
  "\<exists>new. fst (snd (route_loop t force net stops calls db)) = calls @ new"
proof (induction stops arbitrary: calls db rule: induct_list012)
  case 1 then show ?case by simp
next
  case (2 x) then show ?case by simp
next
  case (3 x y zs)
  show ?case
  proof (cases rule: route_loop_cases[where force=force and t=t and x=x and y=y and db=db and net=net and calls=calls and zs=zs])
    case skip
    then show ?thesis using 3(2)[of calls db] by simp
  next
    case (fail msg)
    then show ?thesis by simp
  next
    case (fetch route)
    obtain new where "fst (snd (route_loop t force net (y # zs) (calls @ [(sc_id x, sc_id y)])
                 (upsert_segment t (sc_id x) (sc_id y) route db)))
            = (calls @ [(sc_id x, sc_id y)]) @ new"
      using 3(2) by blast
    then show ?thesis using fetch(3) by simp
  qed
qed

lemma route_loop_all_cached:
  assumes "\<And>p. p \<in> set (consecutive (map sc_id stops)) \<Longrightarrow> existing t (fst p) (snd p) db"
  shows "route_loop t False net stops calls db = (None, calls, db)"
  using assms
proof (induction stops rule: induct_list012)
  case 1 then show ?case by simp
next
  case (2 x) then show ?case by simp
next
  case (3 x y zs)
  have "existing t (sc_id x) (sc_id y) db" using 3(3)[of "(sc_id x, sc_id y)"] by simp
  moreover have "route_loop t False net (y # zs) calls db = (None, calls, db)"
    using 3(3) by (intro 3(2)) simp
  ultimately show ?case by simp
qed

lemma route_loop_success_cached:
  "fst (route_loop t force net stops calls db) = None \<Longrightarrow>
   p \<in> set (consecutive (map sc_id stops)) \<Longrightarrow>
   existing t (fst p) (snd p) (snd (snd (route_loop t force net stops calls db)))"
proof (induction stops arbitrary: calls db rule: induct_list012)
  case 1 then show ?case by simp
next
  case (2 x) then show ?case by simp
next
  case (3 x y zs)
  have p: "p = (sc_id x, sc_id y) \<or> p \<in> set (consecutive (map sc_id (y # zs)))"
    using 3(4) by auto
  show ?case
  proof (cases rule: route_loop_cases[where force=force and t=t and x=x and y=y and db=db and net=net and calls=calls and zs=zs])
    case skip
    show ?thesis
    proof (cases "p = (sc_id x, sc_id y)")
      case True
      then show ?thesis using skip route_loop_mono[OF skip(2), of force net "y # zs" calls] by simp
    next
      case False
      then have "p \<in> set (consecutive (map sc_id (y # zs)))" using p by simp
      then show ?thesis using 3(2)[of calls db] 3(3) skip(3) by simp
    qed
  next
    case (fail msg)
    then show ?thesis using 3(3) by simp
  next
    case (fetch route)
    let ?db1 = "upsert_segment t (sc_id x) (sc_id y) route db"
    let ?calls1 = "calls @ [(sc_id x, sc_id y)]"
    show ?thesis
    proof (cases "p = (sc_id x, sc_id y)")
      case True
      have "existing t (sc_id x) (sc_id y) ?db1" by (rule existing_upsert_same)
      then show ?thesis
        using True fetch(3) route_loop_mono[of t "sc_id x" "sc_id y" ?db1 force net "y # zs" ?calls1]
        by simp
    next
      case False
      then have "p \<in> set (consecutive (map sc_id (y # zs)))" using p by simp
      then show ?thesis using 3(2)[of ?calls1 ?db1] 3(3) fetch(3) by simp
    qed
  qed
qed




lemma loadStops_cong:
  "trip_stops db' = trip_stops db \<Longrightarrow> timeline_entries db' = timeline_entries db \<Longrightarrow>
   loadStopsWithCoords t db' = loadStopsWithCoords t db"
proof -
  assume a: "trip_stops db' = trip_stops db" and b: "timeline_entries db' = timeline_entries db"
  have "with_coords db' = with_coords db"
    by (rule ext) (simp only: with_coords_def stop_location_def b)
  then show ?thesis by (simp add: loadStopsWithCoords_def stops_of_def a)
qed

lemma length_loadStops [simp]: "length (loadStopsWithCoords t db) = length (stops_of t db)"
  by (simp add: loadStopsWithCoords_def)

section \<open>POST routes: a second call\<close>

lemma generate_routes_eq:
  "generate_routes t force net db =
     (if length (stops_of t db) < 2 then (Inl ValidationError, [], db)
      else (let r = route_loop t force net (loadStopsWithCoords t db) []
                      (if force then delete_segments_of_trip t db else db)
            in case fst r of
                 Some msg \<Rightarrow> (Inl (RouteUnavailable msg), fst (snd r), snd (snd r))
               | None \<Rightarrow> (Inr (buildTripResponse t (snd (snd r))), fst (snd r), snd (snd r))))"
  by (auto simp: generate_routes_def Let_def split: prod.splits option.splits)

text \<open>
  C8. When a call with force unset has completed (it answered with the trip), a second
  call with force unset, on the state the first one left and with any routing service,
  makes no request, leaves the database as it is, and gives the same answer.
\<close>

theorem regenerate_hits_cache:
  assumes "fst (generate_routes tripId False net db) = Inr resp"
  shows "generate_routes tripId False net' (snd (snd (generate_routes tripId False net db)))
         = (Inr resp, [], snd (snd (generate_routes tripId False net db)))"
proof -
  let ?stops = "loadStopsWithCoords tripId db"
  let ?r = "route_loop tripId False net ?stops [] db"
  let ?db1 = "snd (snd ?r)"
  have len: "\<not> length (stops_of tripId db) < 2"
    using assms by (auto simp: generate_routes_eq split: if_splits)
  have ok: "fst ?r = None"
    using assms len by (auto simp: generate_routes_eq Let_def split: option.splits)
  have g: "generate_routes tripId False net db
           = (Inr (buildTripResponse tripId ?db1), fst (snd ?r), ?db1)"
    using len ok by (simp add: generate_routes_eq Let_def)
  have resp: "resp = buildTripResponse tripId ?db1" using assms g by simp
  have fr: "trip_stops ?db1 = trip_stops db" "timeline_entries ?db1 = timeline_entries db"
    using route_loop_frame[of tripId False net ?stops "[]" db] by simp_all
  have st: "loadStopsWithCoords tripId ?db1 = ?stops" using fr by (rule loadStops_cong)
  have len1: "\<not> length (stops_of tripId ?db1) < 2" using len stops_of_cong[OF fr(1)] by simp
  have "route_loop tripId False net' ?stops [] ?db1 = (None, [], ?db1)"
    by (rule route_loop_all_cached) (rule route_loop_success_cached[OF ok])
  then have "generate_routes tripId False net' ?db1
             = (Inr (buildTripResponse tripId ?db1), [], ?db1)"
    using len1 by (simp add: generate_routes_eq st Let_def)
  then show ?thesis using g resp by simp
qed

lemma always_routes_good_net: "always_routes good_net"
  by (simp add: always_routes_def good_net_def fetchRouteSegment_def)

lemma loadStops_example_db:
  "map sc_id (loadStopsWithCoords 1 example_db) = [1, 2, 3]"
  by (simp add: loadStops_ids stops_of_example_db waypoint_stop_def)

lemma pairs_of_example_db: "pairs_of 1 example_db = [(1, 2), (2, 3)]"
  by (simp add: pairs_of_def loadStops_example_db)

lemmas route_defs =
  generate_routes_def loadStopsWithCoords_def with_coords_def stop_location_def stops_of_def
  existing_def is_segment_def upsert_segment_def fetchRouteSegment_def Number_def
  buildTripResponse_def segments_of_def delete_segments_of_trip_def Let_def

lemmas net_defs = good_net_def fail_first_def fail_second_def no_route_def a_route_def

lemma first_run_example:
  "generate_routes 1 False good_net (example_db\<lparr>trip_route_segments := []\<rparr>) =
     (Inr (buildTripResponse 1
             (example_db\<lparr>trip_route_segments :=
                [\<lparr>seg_id = 3, seg_trip_id = 1, from_stop_id = 1, to_stop_id = 2,
                  route_geometry = [(0, 0), (1, 1)], distance_meters = 100, duration_seconds = 60\<rparr>,
                 \<lparr>seg_id = 4, seg_trip_id = 1, from_stop_id = 2, to_stop_id = 3,
                  route_geometry = [(0, 0), (1, 1)], distance_meters = 100, duration_seconds = 60\<rparr>],
                trip_route_segments_id_seq := 5\<rparr>)),
      [(1, 2), (2, 3)],
      example_db\<lparr>trip_route_segments :=
                [\<lparr>seg_id = 3, seg_trip_id = 1, from_stop_id = 1, to_stop_id = 2,
                  route_geometry = [(0, 0), (1, 1)], distance_meters = 100, duration_seconds = 60\<rparr>,
                 \<lparr>seg_id = 4, seg_trip_id = 1, from_stop_id = 2, to_stop_id = 3,
                  route_geometry = [(0, 0), (1, 1)], distance_meters = 100, duration_seconds = 60\<rparr>],
                trip_route_segments_id_seq := 5\<rparr>)"
  by (simp add: route_defs net_defs example_defs)

theorem regenerate_hits_cache_witness:
  "fst (generate_routes 1 False good_net (example_db\<lparr>trip_route_segments := []\<rparr>))
     = Inr (buildTripResponse 1
             (snd (snd (generate_routes 1 False good_net (example_db\<lparr>trip_route_segments := []\<rparr>)))))
   \<and> fst (snd (generate_routes 1 False good_net (example_db\<lparr>trip_route_segments := []\<rparr>)))
       = [(1, 2), (2, 3)]
   \<and> fst (snd (generate_routes 1 False fail_first
         (snd (snd (generate_routes 1 False good_net (example_db\<lparr>trip_route_segments := []\<rparr>))))))
       = []
   \<and> snd (snd (generate_routes 1 False fail_first
         (snd (snd (generate_routes 1 False good_net (example_db\<lparr>trip_route_segments := []\<rparr>))))))
       = snd (snd (generate_routes 1 False good_net (example_db\<lparr>trip_route_segments := []\<rparr>)))"
proof -
  let ?E = "example_db\<lparr>trip_route_segments := []\<rparr>"
  have a: "fst (generate_routes 1 False good_net ?E)
           = Inr (buildTripResponse 1 (snd (snd (generate_routes 1 False good_net ?E))))"
    by (simp add: first_run_example)
  have c: "fst (snd (generate_routes 1 False good_net ?E)) = [(1, 2), (2, 3)]"
    by (simp add: first_run_example)
  show ?thesis using regenerate_hits_cache[OF a, of fail_first] a c by simp
qed


section \<open>POST routes: with force set\<close>

lemma generate_routes_calls:
  "fst (snd (generate_routes t force net db)) =
     (if length (stops_of t db) < 2 then []
      else fst (snd (route_loop t force net (loadStopsWithCoords t db) []
                       (if force then delete_segments_of_trip t db else db))))"
  by (simp add: generate_routes_eq Let_def split: option.splits)











lemma not_existing_after_delete [simp]: "\<not> existing t a b (delete_segments_of_trip t db)"
  by (simp add: delete_segments_of_trip_def existing_def is_segment_def filter_empty_conv)





section \<open>POST routes: a failing request\<close>

lemma failed_at_now:
  assumes "force \<or> \<not> existing t x y db"
  shows "failed_at t force ((x, y) # ps) 0 calls (calls @ [(x, y)]) db db"
  using assms by (auto simp: failed_at_def)

lemma failed_at_skip:
  assumes f: "failed_at t force ps k calls calls' db db'" and nf: "\<not> force"
    and e: "existing t x y db'"
  shows "failed_at t force ((x, y) # ps) (Suc k) calls calls' db db'"
proof -
  obtain new where new: "calls' = calls @ new @ [ps ! k]" "set new \<subseteq> set (take k ps)"
    using f by (auto simp: failed_at_def)
  have "set new \<subseteq> set (take (Suc k) ((x, y) # ps))" using new(2) by auto
  then have 2: "\<exists>new. calls' = calls @ new @ [((x, y) # ps) ! Suc k]
               \<and> set new \<subseteq> set (take (Suc k) ((x, y) # ps))
               \<and> (force \<longrightarrow> new = take (Suc k) ((x, y) # ps))"
    using new(1) nf by auto
  have 3: "list_all (\<lambda>p. existing t (fst p) (snd p) db') (take (Suc k) ((x, y) # ps))"
    using f e by (simp add: failed_at_def)
  have 4: "\<forall>a b. (a, b) \<notin> set (take (Suc k) ((x, y) # ps)) \<longrightarrow>
            filter (is_segment t a b) (trip_route_segments db')
              = filter (is_segment t a b) (trip_route_segments db)"
    using f by (simp add: failed_at_def)
  have 5: "\<not> existing t (fst (((x, y) # ps) ! Suc k)) (snd (((x, y) # ps) ! Suc k)) db'"
    using f nf by (simp add: failed_at_def)
  have 1: "Suc k < length ((x, y) # ps)" using f by (simp add: failed_at_def)
  show ?thesis unfolding failed_at_def using 1 2 3 4 5 by blast
qed

lemma failed_at_fetch:
  assumes f: "failed_at t force ps k (calls @ [(x, y)]) calls' (upsert_segment t x y r db) db'"
    and e: "existing t x y db'"
  shows "failed_at t force ((x, y) # ps) (Suc k) calls calls' db db'"
proof -
  obtain new where new: "calls' = (calls @ [(x, y)]) @ new @ [ps ! k]" "set new \<subseteq> set (take k ps)"
    "force \<longrightarrow> new = take k ps"
    using f by (auto simp: failed_at_def)
  have "calls' = calls @ ((x, y) # new) @ [((x, y) # ps) ! Suc k]" using new(1) by simp
  moreover have "set ((x, y) # new) \<subseteq> set (take (Suc k) ((x, y) # ps))" using new(2) by auto
  moreover have "force \<longrightarrow> (x, y) # new = take (Suc k) ((x, y) # ps)" using new(3) by simp
  ultimately have 2: "\<exists>new. calls' = calls @ new @ [((x, y) # ps) ! Suc k]
               \<and> set new \<subseteq> set (take (Suc k) ((x, y) # ps))
               \<and> (force \<longrightarrow> new = take (Suc k) ((x, y) # ps))"
    by blast
  have 3: "list_all (\<lambda>p. existing t (fst p) (snd p) db') (take (Suc k) ((x, y) # ps))"
    using f e by (simp add: failed_at_def)
  have 4: "filter (is_segment t a b) (trip_route_segments db')
              = filter (is_segment t a b) (trip_route_segments db)"
    if "(a, b) \<notin> set (take (Suc k) ((x, y) # ps))" for a b
  proof -
    have ne: "(a, b) \<noteq> (x, y)" and nt: "(a, b) \<notin> set (take k ps)" using that by auto
    have "filter (is_segment t a b) (trip_route_segments db')
          = filter (is_segment t a b) (trip_route_segments (upsert_segment t x y r db))"
      using f nt by (simp add: failed_at_def)
    then show ?thesis using filter_upsert_other[OF ne, of t r db] by simp
  qed
  have 5: "\<not> force \<longrightarrow> \<not> existing t (fst (((x, y) # ps) ! Suc k)) (snd (((x, y) # ps) ! Suc k)) db'"
    using f by (simp add: failed_at_def)
  have 1: "Suc k < length ((x, y) # ps)" using f by (simp add: failed_at_def)
  show ?thesis unfolding failed_at_def using 1 2 3 4 5 by blast
qed

lemma route_loop_failure:
  "route_loop t force net stops calls db = (Some msg, calls', db') \<Longrightarrow>
   \<exists>k. failed_at t force (consecutive (map sc_id stops)) k calls calls' db db'"
proof (induction stops arbitrary: calls db rule: induct_list012)
  case 1 then show ?case by simp
next
  case (2 x) then show ?case by simp
next
  case (3 x y zs)
  show ?case
  proof (cases rule: route_loop_cases[where force=force and t=t and x=x and y=y and db=db and net=net and calls=calls and zs=zs])
    case skip
    then have r: "route_loop t force net (y # zs) calls db = (Some msg, calls', db')"
      using 3(3) by simp
    then obtain k where k: "failed_at t force (consecutive (map sc_id (y # zs))) k calls calls' db db'"
      using 3(2) by blast
    have "existing t (sc_id x) (sc_id y) db'"
      using route_loop_mono[OF skip(2), of force net "y # zs" calls] r by simp
    then have "failed_at t force ((sc_id x, sc_id y) # consecutive (map sc_id (y # zs))) (Suc k)
                 calls calls' db db'"
      using k skip(1) by (intro failed_at_skip)
    then show ?thesis by (auto intro: exI[of _ "Suc k"])
  next
    case (fail msg')
    then have "calls' = calls @ [(sc_id x, sc_id y)]" "db' = db" using 3(3) by simp_all
    then have "failed_at t force ((sc_id x, sc_id y) # consecutive (map sc_id (y # zs))) 0
                 calls calls' db db'"
      using failed_at_now[OF fail(1)] by simp
    then show ?thesis by (auto intro: exI[of _ 0])
  next
    case (fetch route)
    let ?db1 = "upsert_segment t (sc_id x) (sc_id y) route db"
    let ?calls1 = "calls @ [(sc_id x, sc_id y)]"
    have r: "route_loop t force net (y # zs) ?calls1 ?db1 = (Some msg, calls', db')"
      using fetch(3) 3(3) by simp
    then obtain k where k: "failed_at t force (consecutive (map sc_id (y # zs))) k ?calls1 calls' ?db1 db'"
      using 3(2) by blast
    have e1: "existing t (sc_id x) (sc_id y) ?db1" by (rule existing_upsert_same)
    have "existing t (sc_id x) (sc_id y) db'"
      using route_loop_mono[OF e1, of force net "y # zs" ?calls1] r by simp
    then have "failed_at t force ((sc_id x, sc_id y) # consecutive (map sc_id (y # zs))) (Suc k)
                 calls calls' db db'"
      using k by (intro failed_at_fetch)
    then show ?thesis by (auto intro: exI[of _ "Suc k"])
  qed
qed

lemma route_loop_resumes:
  assumes "k < length (consecutive (map sc_id stops))"
    and "list_all (\<lambda>p. existing t (fst p) (snd p) db) (take k (consecutive (map sc_id stops)))"
    and "\<not> existing t (fst (consecutive (map sc_id stops) ! k)) (snd (consecutive (map sc_id stops) ! k)) db"
  shows "\<exists>rest. fst (snd (route_loop t False net stops calls db))
            = calls @ consecutive (map sc_id stops) ! k # rest"
  using assms
proof (induction stops arbitrary: k rule: induct_list012)
  case 1 then show ?case by simp
next
  case (2 x) then show ?case by simp
next
  case (3 x y zs)
  show ?case
  proof (cases k)
    case 0
    then have ne: "\<not> existing t (sc_id x) (sc_id y) db" using 3(5) by simp
    show ?thesis
    proof (cases rule: route_loop_cases[where force=False and t=t and x=x and y=y and db=db and net=net and calls=calls and zs=zs])
      case skip then show ?thesis using ne by simp
    next
      case (fail msg) then show ?thesis using 0 by simp
    next
      case (fetch route)
      obtain new where "fst (snd (route_loop t False net (y # zs) (calls @ [(sc_id x, sc_id y)])
                   (upsert_segment t (sc_id x) (sc_id y) route db)))
            = (calls @ [(sc_id x, sc_id y)]) @ new"
        using route_loop_extends by blast
      then show ?thesis using fetch(3) 0 by simp
    qed
  next
    case (Suc k')
    have e: "existing t (sc_id x) (sc_id y) db" using 3(4) Suc by simp
    have "\<exists>rest. fst (snd (route_loop t False net (y # zs) calls db))
            = calls @ consecutive (map sc_id (y # zs)) ! k' # rest"
      using 3(3,4,5) Suc by (intro 3(2)) simp_all
    then show ?thesis using e Suc by simp
  qed
qed

lemma distinct_pairs_of:
  assumes "distinct (map stop_id (trip_stops db))"
  shows "distinct (pairs_of t db)"
proof -
  have d: "distinct (map stop_id (stops_of t db))" using assms by (rule distinct_stop_ids_of)
  then have "distinct (sort_key position (stops_of t db))"
    and "inj_on stop_id (set (sort_key position (stops_of t db)))"
    by (simp_all add: distinct_map)
  then have "distinct (map stop_id (sort_key position (stops_of t db)))"
    by (simp only: distinct_map)
  then show ?thesis
    unfolding pairs_of_def consecutive_def loadStops_ids by (rule distinct_zipI1)
qed

lemma drop_not_in_take:
  assumes "distinct ps" and "p \<in> set (drop k ps)"
  shows "p \<notin> set (take k ps)"
  using set_take_disj_set_drop_if_distinct[OF assms(1) order_refl, of k] assms(2) by blast

lemma generate_routes_failed:
  assumes "generate_routes t force net db = (Inl (RouteUnavailable msg), calls, db1)"
  shows "\<not> length (stops_of t db) < 2
       \<and> route_loop t force net (loadStopsWithCoords t db) []
           (if force then delete_segments_of_trip t db else db) = (Some msg, calls, db1)"
proof -
  let ?r = "route_loop t force net (loadStopsWithCoords t db) []
              (if force then delete_segments_of_trip t db else db)"
  have len: "\<not> length (stops_of t db) < 2"
    using assms by (auto simp: generate_routes_eq split: if_splits)
  obtain e c d where r: "?r = (e, c, d)" by (cases ?r)
  have "e = Some msg \<and> c = calls \<and> d = db1"
    using assms len r by (cases e) (simp_all add: generate_routes_eq Let_def)
  then show ?thesis using len r by simp
qed

lemma no_segments_after_delete:
  "filter (is_segment t a b) (trip_route_segments (delete_segments_of_trip t db)) = []"
  by (auto simp: delete_segments_of_trip_def is_segment_def filter_empty_conv)

text \<open>
  C7, as the code has it. When a call ends with the error of a failing request, the
  request that failed is the last one made, for a consecutive pair \<open>k\<close>; the requests
  before it are for earlier pairs (with force set: for all of them, in order); every
  earlier pair is cached afterwards; for the failing pair and every later pair the cached
  segments are what they were when the loop started, and the failing pair has none; the
  stops are untouched; and a following call with force unset, with any routing service,
  makes its first request for the pair that failed. The error carries the message of
  \<open>fetchRouteSegment\<close> only, which does not name the pair.
\<close>

theorem failed_generation_keeps_fetched_segments:
  assumes "distinct (map stop_id (trip_stops db))"
    and "generate_routes tripId force net db = (Inl (RouteUnavailable msg), calls, db1)"
  shows "\<exists>k < length (pairs_of tripId db).
           calls \<noteq> [] \<and> last calls = pairs_of tripId db ! k
           \<and> set (butlast calls) \<subseteq> set (take k (pairs_of tripId db))
           \<and> (force \<longrightarrow> calls = take (Suc k) (pairs_of tripId db))
           \<and> list_all (\<lambda>p. existing tripId (fst p) (snd p) db1) (take k (pairs_of tripId db))
           \<and> list_all (\<lambda>p. filter (is_segment tripId (fst p) (snd p)) (trip_route_segments db1)
                            = filter (is_segment tripId (fst p) (snd p))
                                (trip_route_segments
                                   (if force then delete_segments_of_trip tripId db else db)))
                 (drop k (pairs_of tripId db))
           \<and> \<not> existing tripId (fst (pairs_of tripId db ! k)) (snd (pairs_of tripId db ! k)) db1
           \<and> trip_stops db1 = trip_stops db
           \<and> (\<forall>net'. \<exists>rest. fst (snd (generate_routes tripId False net' db1))
                               = pairs_of tripId db ! k # rest)"
proof -
  let ?stops = "loadStopsWithCoords tripId db"
  let ?ps = "pairs_of tripId db"
  let ?db0 = "if force then delete_segments_of_trip tripId db else db"
  have len: "\<not> length (stops_of tripId db) < 2"
    and r: "route_loop tripId force net ?stops [] ?db0 = (Some msg, calls, db1)"
    using generate_routes_failed[OF assms(2)] by simp_all
  have ps: "?ps = consecutive (map sc_id ?stops)" by (simp add: pairs_of_def)
  obtain k where "failed_at tripId force (consecutive (map sc_id ?stops)) k [] calls ?db0 db1"
    using route_loop_failure[OF r] by blast
  then have f: "failed_at tripId force ?ps k [] calls ?db0 db1" by (simp only: ps)
  have k: "k < length ?ps" using f by (simp add: failed_at_def)
  obtain new where new: "calls = new @ [?ps ! k]" "set new \<subseteq> set (take k ?ps)"
    "force \<longrightarrow> new = take k ?ps"
    using f by (auto simp: failed_at_def)
  have c1: "calls \<noteq> []" "last calls = ?ps ! k" "set (butlast calls) \<subseteq> set (take k ?ps)"
    using new by simp_all
  have c2: "force \<longrightarrow> calls = take (Suc k) ?ps"
    using new(1,3) take_Suc_conv_app_nth[OF k] by simp
  have c3: "list_all (\<lambda>p. existing tripId (fst p) (snd p) db1) (take k ?ps)"
    using f by (simp add: failed_at_def)
  have un: "\<And>a b. (a, b) \<notin> set (take k ?ps) \<Longrightarrow>
              filter (is_segment tripId a b) (trip_route_segments db1)
                = filter (is_segment tripId a b) (trip_route_segments ?db0)"
    using f unfolding failed_at_def by blast
  have dps: "distinct ?ps" using assms(1) by (rule distinct_pairs_of)
  have later: "filter (is_segment tripId (fst p) (snd p)) (trip_route_segments db1)
                 = filter (is_segment tripId (fst p) (snd p)) (trip_route_segments ?db0)"
    if "p \<in> set (drop k ?ps)" for p
    using un[of "fst p" "snd p"] drop_not_in_take[OF dps that] by simp
  then have c4: "list_all (\<lambda>p. filter (is_segment tripId (fst p) (snd p)) (trip_route_segments db1)
                            = filter (is_segment tripId (fst p) (snd p)) (trip_route_segments ?db0))
                 (drop k ?ps)"
    unfolding list_all_iff by blast
  have pk: "?ps ! k \<in> set (drop k ?ps)"
    using k by (metis Cons_nth_drop_Suc list.set_intros(1))
  have c5: "\<not> existing tripId (fst (?ps ! k)) (snd (?ps ! k)) db1"
  proof (cases force)
    case True
    then have "filter (is_segment tripId (fst (?ps ! k)) (snd (?ps ! k))) (trip_route_segments db1) = []"
      using later[OF pk] by (simp add: no_segments_after_delete)
    then show ?thesis by (simp add: existing_def)
  next
    case False
    then show ?thesis using f by (simp add: failed_at_def)
  qed
  have fr: "trip_stops db1 = trip_stops ?db0" "timeline_entries db1 = timeline_entries ?db0"
    using route_loop_frame[of tripId force net ?stops "[]" ?db0] r by simp_all
  have fr0: "trip_stops ?db0 = trip_stops db" "timeline_entries ?db0 = timeline_entries db"
    by (simp_all add: delete_segments_of_trip_def)
  have c6: "trip_stops db1 = trip_stops db" using fr(1) fr0(1) by simp
  have te: "timeline_entries db1 = timeline_entries db" using fr(2) fr0(2) by simp
  have st: "loadStopsWithCoords tripId db1 = ?stops" using c6 te by (rule loadStops_cong)
  have len1: "\<not> length (stops_of tripId db1) < 2" using len stops_of_cong[OF c6] by simp
  have c7: "\<exists>rest. fst (snd (generate_routes tripId False net' db1)) = ?ps ! k # rest" for net'
  proof -
    have k': "k < length (consecutive (map sc_id ?stops))" using k unfolding ps .
    have c3': "list_all (\<lambda>p. existing tripId (fst p) (snd p) db1)
                 (take k (consecutive (map sc_id ?stops)))"
      using c3 unfolding ps .
    have c5': "\<not> existing tripId (fst (consecutive (map sc_id ?stops) ! k))
                 (snd (consecutive (map sc_id ?stops) ! k)) db1"
      using c5 unfolding ps .
    have "\<exists>rest. fst (snd (route_loop tripId False net' ?stops [] db1))
            = [] @ consecutive (map sc_id ?stops) ! k # rest"
      by (rule route_loop_resumes[OF k' c3' c5'])
    then show ?thesis using len1 by (simp add: generate_routes_calls st ps)
  qed
  show ?thesis using k c1 c2 c3 c4 c5 c6 c7 by blast
qed

lemma failed_run_example:
  "generate_routes 1 False fail_second (example_db\<lparr>trip_route_segments := []\<rparr>) =
     (Inl (RouteUnavailable ''Mapbox Directions failed: NoRoute''),
      [(1, 2), (2, 3)],
      example_db\<lparr>trip_route_segments :=
                [\<lparr>seg_id = 3, seg_trip_id = 1, from_stop_id = 1, to_stop_id = 2,
                  route_geometry = [(0, 0), (1, 1)], distance_meters = 100, duration_seconds = 60\<rparr>],
                trip_route_segments_id_seq := 4\<rparr>)"
  by (simp add: route_defs net_defs example_defs)

theorem failed_generation_keeps_fetched_segments_witness:
  "distinct (map stop_id (trip_stops (example_db\<lparr>trip_route_segments := []\<rparr>)))
   \<and> fst (generate_routes 1 False fail_second (example_db\<lparr>trip_route_segments := []\<rparr>))
       = Inl (RouteUnavailable ''Mapbox Directions failed: NoRoute'')
   \<and> fst (snd (generate_routes 1 False fail_second (example_db\<lparr>trip_route_segments := []\<rparr>)))
       = [(1, 2), (2, 3)]
   \<and> pairs_of 1 (example_db\<lparr>trip_route_segments := []\<rparr>) = [(1, 2), (2, 3)]
   \<and> existing 1 1 2 (snd (snd (generate_routes 1 False fail_second
         (example_db\<lparr>trip_route_segments := []\<rparr>))))
   \<and> \<not> existing 1 2 3 (snd (snd (generate_routes 1 False fail_second
         (example_db\<lparr>trip_route_segments := []\<rparr>))))
   \<and> (\<exists>rest. fst (snd (generate_routes 1 False good_net
          (snd (snd (generate_routes 1 False fail_second
             (example_db\<lparr>trip_route_segments := []\<rparr>)))))) = (2, 3) # rest)"
proof -
  let ?E = "example_db\<lparr>trip_route_segments := []\<rparr>"
  let ?db1 = "snd (snd (generate_routes 1 False fail_second ?E))"
  have d: "distinct (map stop_id (trip_stops ?E))" by (simp add: example_defs)
  have g: "generate_routes 1 False fail_second ?E
           = (Inl (RouteUnavailable ''Mapbox Directions failed: NoRoute''), [(1, 2), (2, 3)], ?db1)"
    by (simp add: failed_run_example)
  have ps: "pairs_of 1 ?E = [(1, 2), (2, 3)]"
    using loadStops_cong[of ?E example_db 1] by (simp add: pairs_of_def loadStops_example_db)
  obtain k where k: "k < length (pairs_of 1 ?E)" "last [(1, 2), (2, 3)] = pairs_of 1 ?E ! k"
    "list_all (\<lambda>p. existing 1 (fst p) (snd p) ?db1) (take k (pairs_of 1 ?E))"
    "\<not> existing 1 (fst (pairs_of 1 ?E ! k)) (snd (pairs_of 1 ?E ! k)) ?db1"
    "\<forall>net'. \<exists>rest. fst (snd (generate_routes 1 False net' ?db1)) = pairs_of 1 ?E ! k # rest"
    using failed_generation_keeps_fetched_segments[OF d g] by blast
  have "k = 1" using k(1,2) by (cases k) (simp_all add: ps)
  then have "existing 1 1 2 ?db1" "\<not> existing 1 2 3 ?db1"
    "\<exists>rest. fst (snd (generate_routes 1 False good_net ?db1)) = (2, 3) # rest"
    using k(3,4,5) by (simp_all add: ps)
  moreover have "fst (generate_routes 1 False fail_second ?E)
       = Inl (RouteUnavailable ''Mapbox Directions failed: NoRoute'')"
    "fst (snd (generate_routes 1 False fail_second ?E)) = [(1, 2), (2, 3)]"
    by (simp_all add: failed_run_example)
  ultimately show ?thesis using d ps by blast
qed

theorem failing_pair_not_in_error_counterexample:
  "fst (generate_routes 1 False fail_first (example_db\<lparr>trip_route_segments := []\<rparr>))
     = Inl (RouteUnavailable ''Mapbox Directions failed: NoRoute'')
   \<and> last (fst (snd (generate_routes 1 False fail_first (example_db\<lparr>trip_route_segments := []\<rparr>))))
       = (1, 2)
   \<and> fst (generate_routes 1 False fail_second (example_db\<lparr>trip_route_segments := []\<rparr>))
       = Inl (RouteUnavailable ''Mapbox Directions failed: NoRoute'')
   \<and> last (fst (snd (generate_routes 1 False fail_second (example_db\<lparr>trip_route_segments := []\<rparr>))))
       = (2, 3)"
  by (simp add: route_defs net_defs example_defs)


end
